theory Spec2Isabelle
  imports Complex_Main "HOL-Library.Word" "HOL-Library.Multiset"
begin

section \<open>Python values, errors and indexing\<close>

text \<open>
  The module \<^verbatim>\<open>probability_calculator/__init__.py\<close> is Python 2. Its integers are
  unbounded (\<open>int\<close>), its exceptions are values of \<open>error\<close>, and a function that can
  raise returns \<open>error + 'a\<close> with \<open>Inl\<close> the exception.
\<close>

datatype error = ZeroDivisionError | IndexError | ValueError

text \<open>
  \<^verbatim>\<open>xs[i]\<close> on a sequence of length \<open>n\<close>: a negative index counts from the end, anything
  outside \<open>-n .. n-1\<close> raises IndexError. Lists and the ctypes arrays behind
  \<^verbatim>\<open>multiprocessing.Array\<close> index the same way.
\<close>

definition py_index :: "nat \<Rightarrow> int \<Rightarrow> nat option" where
  "py_index n i =
     (if 0 \<le> i \<and> i < int n then Some (nat i)
      else if - int n \<le> i \<and> i < 0 then Some (nat (int n + i))
      else None)"

text \<open>\<^verbatim>\<open>xs[i] += 1\<close>. On a list of \<open>32 word\<close> (a C int array) the addition wraps.\<close>

definition py_incr :: "'a::{plus,one} list \<Rightarrow> int \<Rightarrow> error + 'a list" where
  "py_incr xs i =
     (case py_index (length xs) i of
        None \<Rightarrow> Inl IndexError
      | Some k \<Rightarrow> Inr (xs[k := xs ! k + 1]))"

section \<open>The collaborators in \<^verbatim>\<open>holdem_functions\<close>\<close>

text \<open>
  \<^verbatim>\<open>holdem_functions\<close> is imported, not part of the module. Its functions are the fields
  of a record that every operation below takes as its first argument \<open>X\<close>; a call is
  taken to return. \<open>'c\<close> is the type of cards, \<open>'p\<close> the triple
  \<^verbatim>\<open>(suit_histogram, histogram, max_suit)\<close> of \<^verbatim>\<open>preprocess_board\<close>, and a hand
  result is a tuple whose component 0 is the hand category (\<open>int\<close>) and whose rest is
  \<open>'k\<close>. The boards a generator yields are the list it returns; for the random
  generator the record holds the draws of the run at hand.
\<close>

record ('c, 'p, 'k) holdem_functions =
  Card :: "string \<Rightarrow> 'c"
  generate_deck :: "'c list list \<Rightarrow> 'c list"
  generate_exhaustive_boards :: "'c list \<Rightarrow> int \<Rightarrow> nat \<Rightarrow> 'c list list"
  generate_random_boards :: "'c list \<Rightarrow> int \<Rightarrow> nat \<Rightarrow> 'c list list"
  preprocess_board :: "'c list \<Rightarrow> 'p"
  detect_hand :: "'c list \<Rightarrow> 'c list \<Rightarrow> 'p \<Rightarrow> int \<times> 'k"
  compare_hands :: "(int \<times> 'k) list \<Rightarrow> int"

section \<open>The per-trial body shared by \<^verbatim>\<open>_evaluate\<close> and \<^verbatim>\<open>_simulation\<close>\<close>

text \<open>
  Lines 80-84 and 111-115: \<^verbatim>\<open>if given_board: board = given_board[:];
  board.extend(remaining_board) else: board = remaining_board\<close>. \<open>None\<close> and the empty
  list are both false.
\<close>

definition make_board :: "'c list option \<Rightarrow> 'c list \<Rightarrow> 'c list" where
  "make_board given_board remaining_board =
     (case given_board of
        None \<Rightarrow> remaining_board
      | Some gb \<Rightarrow> if gb \<noteq> [] then gb @ remaining_board else remaining_board)"

text \<open>Lines 87-92 and 125-131: one \<^verbatim>\<open>detect_hand\<close> per player, in player order.\<close>

definition detect_all ::
  "('c, 'p, 'k) holdem_functions \<Rightarrow> 'c list list \<Rightarrow> 'c list \<Rightarrow> (int \<times> 'k) list" where
  "detect_all X hole_cards board =
     (let pre = preprocess_board X board
      in map (\<lambda>hole_card. detect_hand X hole_card board pre) hole_cards)"

section \<open>The sequential reducer \<^verbatim>\<open>_evaluate\<close>\<close>

text \<open>
  Lines 97-98: \<^verbatim>\<open>for index, result in enumerate(result_list):
  result_histograms[index][result[0]] += 1\<close>.
\<close>

fun incr_histograms ::
  "int list list \<Rightarrow> nat \<Rightarrow> (int \<times> 'k) list \<Rightarrow> error + int list list" where
  "incr_histograms hs index [] = Inr hs"
| "incr_histograms hs index (result # rest) =
     (if index < length hs then
        (case py_incr (hs ! index) (fst result) of
           Inl e \<Rightarrow> Inl e
         | Inr h \<Rightarrow> incr_histograms (hs[index := h]) (Suc index) rest)
      else Inl IndexError)"

text \<open>Lines 94-98 on the board of one trial; the state is \<open>(winner_list, result_histograms)\<close>.\<close>

definition tabulate ::
  "('c, 'p, 'k) holdem_functions \<Rightarrow> 'c list list \<Rightarrow> int list \<times> int list list \<Rightarrow> 'c list
     \<Rightarrow> error + int list \<times> int list list" where
  "tabulate X hole_cards st board =
     (let result_list = detect_all X hole_cards board;
          winner_index = compare_hands X result_list
      in case py_incr (fst st) winner_index of
           Inl e \<Rightarrow> Inl e
         | Inr winner_list \<Rightarrow>
             (case incr_histograms (snd st) 0 result_list of
                Inl e \<Rightarrow> Inl e
              | Inr result_histograms \<Rightarrow> Inr (winner_list, result_histograms)))"

definition trial ::
  "('c, 'p, 'k) holdem_functions \<Rightarrow> 'c list list \<Rightarrow> 'c list option
     \<Rightarrow> int list \<times> int list list \<Rightarrow> 'c list \<Rightarrow> error + int list \<times> int list list" where
  "trial X hole_cards given_board st remaining_board =
     tabulate X hole_cards st (make_board given_board remaining_board)"

text \<open>A \<^verbatim>\<open>for\<close> loop over a finite stream: the first exception ends it.\<close>

fun run_trials :: "('s \<Rightarrow> 't \<Rightarrow> error + 's) \<Rightarrow> 's \<Rightarrow> 't list \<Rightarrow> error + 's" where
  "run_trials step st [] = Inr st"
| "run_trials step st (t # ts) =
     (case step st t of Inl e \<Rightarrow> Inl e | Inr st' \<Rightarrow> run_trials step st' ts)"

text \<open>
  Lines 71-75 and 161-167: with a board the exhaustive generator, without one the
  random generator; \<^verbatim>\<open>board_length\<close> is 0 without a board.
\<close>

datatype mode = Exhaustive | Random

definition select_mode :: "'c list option \<Rightarrow> mode" where
  "select_mode given_board = (if given_board \<noteq> None then Exhaustive else Random)"

definition board_length :: "'c list option \<Rightarrow> nat" where
  "board_length given_board = (case given_board of None \<Rightarrow> 0 | Some gb \<Rightarrow> length gb)"

definition generate_boards ::
  "('c, 'p, 'k) holdem_functions \<Rightarrow> 'c list option \<Rightarrow> 'c list \<Rightarrow> int \<Rightarrow> 'c list list" where
  "generate_boards X given_board deck num_iterations =
     (case select_mode given_board of
        Exhaustive \<Rightarrow> generate_exhaustive_boards X deck num_iterations (board_length given_board)
      | Random \<Rightarrow> generate_random_boards X deck num_iterations (board_length given_board))"

text \<open>
  Lines 100-101. \<^verbatim>\<open>float(sum(winner_list))\<close> is exact below \<open>2^53\<close>; the quotients are
  given as rationals, of which Python returns the nearest double (0 and 1 are exact).
  The tuple is built left to right: \<^verbatim>\<open>winner_list[1]\<close>, the division,
  \<^verbatim>\<open>winner_list[2]\<close>, the division.
\<close>

definition probabilities :: "int list \<Rightarrow> error + rat \<times> rat" where
  "probabilities winner_list =
     (let float_iterations = sum_list winner_list
      in if length winner_list \<le> 1 then Inl IndexError
         else if float_iterations = 0 then Inl ZeroDivisionError
         else if length winner_list \<le> 2 then Inl IndexError
         else Inr (of_int (winner_list ! 1) / of_int float_iterations,
                   of_int (winner_list ! 2) / of_int float_iterations))"

text \<open>Lines 65-98: the tallies when the stream is exhausted.\<close>

definition u_evaluate_tally ::
  "('c, 'p, 'k) holdem_functions \<Rightarrow> 'c list list \<Rightarrow> 'c list option \<Rightarrow> 'c list list
     \<Rightarrow> error + int list \<times> int list list" where
  "u_evaluate_tally X hole_cards given_board boards =
     (let num_players = length hole_cards;
          winner_list = replicate (num_players + 1) 0;
          result_histograms = replicate num_players (replicate 10 0)
      in run_trials (trial X hole_cards given_board) (winner_list, result_histograms) boards)"

text \<open>\<^verbatim>\<open>_evaluate\<close> (the leading underscore is written \<open>u_\<close>).\<close>

definition u_evaluate ::
  "('c, 'p, 'k) holdem_functions \<Rightarrow> 'c list list \<Rightarrow> 'c list \<Rightarrow> 'c list option \<Rightarrow> int
     \<Rightarrow> error + rat \<times> rat" where
  "u_evaluate X hole_cards deck given_board num_iterations =
     (case u_evaluate_tally X hole_cards given_board
             (generate_boards X given_board deck num_iterations) of
        Inl e \<Rightarrow> Inl e
      | Inr (winner_list, result_histograms) \<Rightarrow> probabilities winner_list)"

section \<open>The sharded parallel reducer\<close>

subsection \<open>Worker names and the shard index\<close>

text \<open>
  A pool worker is named \<^verbatim>\<open>PoolWorker-w\<close>, with \<open>w\<close> in decimal (\<open>str\<close>).
\<close>

definition digit_char :: "nat \<Rightarrow> char" where
  "digit_char d = ''0123456789'' ! d"

fun str :: "nat \<Rightarrow> string" where
  "str n = (if n < 10 then [digit_char n] else str (n div 10) @ [digit_char (n mod 10)])"

declare str.simps [simp del]

definition worker_name :: "nat \<Rightarrow> string" where
  "worker_name w = ''PoolWorker-'' @ str w"

text \<open>\<^verbatim>\<open>int(c)\<close> for a string of one character: a decimal digit, or ValueError.\<close>

definition digit_of_char :: "char \<Rightarrow> nat option" where
  "digit_of_char c = map_of (zip ''0123456789'' [0, 1, 2, 3, 4, 5, 6, 7, 8, 9]) c"

text \<open>
  Line 118: \<^verbatim>\<open>proc_id = int(multiprocessing.current_process().name[-1]) - 1\<close>, the
  last character of the name.
\<close>

definition proc_id_of :: "string \<Rightarrow> error + int" where
  "proc_id_of name =
     (if name = [] then Inl IndexError
      else case digit_of_char (last name) of
             None \<Rightarrow> Inl ValueError
           | Some d \<Rightarrow> Inr (int d - 1))"

subsection \<open>\<^verbatim>\<open>_simulation\<close>\<close>

text \<open>
  The shared arrays are \<^verbatim>\<open>multiprocessing.Array('i', n)\<close>: C ints, \<open>32 word\<close>, read as
  signed values. Lines 134 and 136-138 are the two counter writes.
\<close>

definition winner_slot :: "int \<Rightarrow> int \<Rightarrow> int \<Rightarrow> int" where
  "winner_slot proc_id num_players winner_index = proc_id * (num_players + 1) + winner_index"

definition histogram_slot :: "int \<Rightarrow> int \<Rightarrow> int \<Rightarrow> int \<Rightarrow> int" where
  "histogram_slot proc_id num_players index category =
     10 * (proc_id * num_players + index) + category"

fun incr_shared_histograms ::
  "32 word list \<Rightarrow> int \<Rightarrow> int \<Rightarrow> nat \<Rightarrow> (int \<times> 'k) list \<Rightarrow> error + 32 word list" where
  "incr_shared_histograms rh proc_id num_players index [] = Inr rh"
| "incr_shared_histograms rh proc_id num_players index (result # rest) =
     (case py_incr rh (histogram_slot proc_id num_players (int index) (fst result)) of
        Inl e \<Rightarrow> Inl e
      | Inr rh' \<Rightarrow> incr_shared_histograms rh' proc_id num_players (Suc index) rest)"

text \<open>
  Lines 116-138 on the board of one trial, in the worker called \<open>name\<close>. The attribute
  \<^verbatim>\<open>_simulation.num_players\<close> is \<^verbatim>\<open>len(hole_cards)\<close>: \<^verbatim>\<open>_parallel_evaluate\<close> is the only
  caller of \<^verbatim>\<open>_simulation_init\<close>.
\<close>

definition shard_tabulate ::
  "('c, 'p, 'k) holdem_functions \<Rightarrow> 'c list list \<Rightarrow> string
     \<Rightarrow> 32 word list \<times> 32 word list \<Rightarrow> 'c list \<Rightarrow> error + 32 word list \<times> 32 word list" where
  "shard_tabulate X hole_cards name st board =
     (let num_players = int (length hole_cards)
      in case proc_id_of name of
           Inl e \<Rightarrow> Inl e
         | Inr proc_id \<Rightarrow>
             (let result_list = detect_all X hole_cards board;
                  winner_index = compare_hands X result_list
              in case py_incr (fst st) (winner_slot proc_id num_players winner_index) of
                   Inl e \<Rightarrow> Inl e
                 | Inr winner_list \<Rightarrow>
                     (case incr_shared_histograms (snd st) proc_id num_players 0 result_list of
                        Inl e \<Rightarrow> Inl e
                      | Inr result_histograms \<Rightarrow> Inr (winner_list, result_histograms))))"

definition u_simulation ::
  "('c, 'p, 'k) holdem_functions \<Rightarrow> 'c list option \<Rightarrow> 'c list list \<Rightarrow> string
     \<Rightarrow> 32 word list \<times> 32 word list \<Rightarrow> 'c list \<Rightarrow> error + 32 word list \<times> 32 word list" where
  "u_simulation X given_board hole_cards name st remaining_board =
     shard_tabulate X hole_cards name st (make_board given_board remaining_board)"

subsection \<open>\<^verbatim>\<open>pool.map\<close> and \<^verbatim>\<open>_parallel_evaluate\<close>\<close>

text \<open>
  \<^verbatim>\<open>pool.map(_simulation, boards)\<close> hands every board to one worker. Which worker takes
  which board is the scheduler's choice: \<open>worker_of k\<close> is the number of the worker that
  takes board \<open>k\<close> of the stream. The run is given as one serial order of the calls, each
  \<^verbatim>\<open>+= 1\<close> one step; an exception in a worker is raised by \<^verbatim>\<open>pool.map\<close>. The serial
  order stands for every interleaving of the processes as long as no two workers write to
  the same shard: writes to different positions commute. Where two workers share a shard
  the processes can also lose an increment, which the serial order does not show; the
  general statements about the shared arrays are therefore made for schedules with
  \<open>exclusive_shards\<close> only.
\<close>

definition pool_map ::
  "('c, 'p, 'k) holdem_functions \<Rightarrow> 'c list option \<Rightarrow> 'c list list \<Rightarrow> (nat \<Rightarrow> nat)
     \<Rightarrow> 32 word list \<times> 32 word list \<Rightarrow> 'c list list \<Rightarrow> error + 32 word list \<times> 32 word list" where
  "pool_map X given_board hole_cards worker_of st boards =
     run_trials
       (\<lambda>st (k, remaining_board).
          u_simulation X given_board hole_cards (worker_name (worker_of k)) st remaining_board)
       st (enumerate 0 boards)"

text \<open>Lines 151-173; \<open>num_processes\<close> is \<^verbatim>\<open>multiprocessing.cpu_count()\<close>.\<close>

definition u_parallel_tally ::
  "('c, 'p, 'k) holdem_functions \<Rightarrow> nat \<Rightarrow> (nat \<Rightarrow> nat) \<Rightarrow> 'c list list \<Rightarrow> 'c list option
     \<Rightarrow> 'c list list \<Rightarrow> error + 32 word list \<times> 32 word list" where
  "u_parallel_tally X num_processes worker_of hole_cards given_board boards =
     (let num_players = length hole_cards;
          winner_list = replicate (num_processes * (num_players + 1)) 0;
          result_histograms = replicate (num_processes * num_players * 10) 0
      in pool_map X given_board hole_cards worker_of (winner_list, result_histograms) boards)"

text \<open>Lines 175-180: the reduction of the win/tie counters.\<close>

definition combine_winner_list :: "nat \<Rightarrow> 32 word list \<Rightarrow> int list" where
  "combine_winner_list num_players winner_list =
     fold (\<lambda>(index, element) combined.
             combined[index mod (num_players + 1) :=
                        combined ! (index mod (num_players + 1)) + sint element])
          (enumerate 0 winner_list) (replicate (num_players + 1) 0)"

text \<open>
  Lines 176-177 and 181-182: the reduction of the histograms. With no player the
  modulus is 0 and the first element raises.
\<close>

definition combine_histograms :: "nat \<Rightarrow> 32 word list \<Rightarrow> error + int list list" where
  "combine_histograms num_players result_histograms =
     (if num_players = 0 \<and> result_histograms \<noteq> [] then Inl ZeroDivisionError
      else Inr (fold (\<lambda>(index, element) combined.
                        combined[(index div 10) mod num_players :=
                                   (combined ! ((index div 10) mod num_players))
                                     [index mod 10 :=
                                        combined ! ((index div 10) mod num_players) ! (index mod 10)
                                          + sint element]])
                     (enumerate 0 result_histograms)
                     (replicate num_players (replicate 10 0))))"

text \<open>
  \<^verbatim>\<open>_parallel_evaluate\<close>. The combined lists go to \<^verbatim>\<open>print_results\<close> only; lines
  187-188 read the shared \<^verbatim>\<open>winner_list\<close>.
\<close>

definition u_parallel_evaluate ::
  "('c, 'p, 'k) holdem_functions \<Rightarrow> nat \<Rightarrow> (nat \<Rightarrow> nat) \<Rightarrow> 'c list list \<Rightarrow> 'c list
     \<Rightarrow> 'c list option \<Rightarrow> int \<Rightarrow> error + rat \<times> rat" where
  "u_parallel_evaluate X num_processes worker_of hole_cards deck given_board num_iterations =
     (case u_parallel_tally X num_processes worker_of hole_cards given_board
             (generate_boards X given_board deck num_iterations) of
        Inl e \<Rightarrow> Inl e
      | Inr (winner_list, result_histograms) \<Rightarrow>
          (let combined_winner_list = combine_winner_list (length hole_cards) winner_list
           in case combine_histograms (length hole_cards) result_histograms of
                Inl e \<Rightarrow> Inl e
              | Inr combined_histograms \<Rightarrow> probabilities (map sint winner_list)))"

section \<open>The entry point \<^verbatim>\<open>evaluate\<close>\<close>

text \<open>
  Lines 43-61. \<open>num_processes\<close> and \<open>worker_of\<close> are the machine's CPU count and the
  pool's schedule; only the parallel path reads them.
\<close>

definition evaluate ::
  "('c, 'p, 'k) holdem_functions \<Rightarrow> nat \<Rightarrow> (nat \<Rightarrow> nat) \<Rightarrow> string list \<Rightarrow> string list
     \<Rightarrow> string list option \<Rightarrow> bool \<Rightarrow> int \<Rightarrow> error + rat \<times> rat" where
  "evaluate X num_processes worker_of hole_cards adversary_hole_cards given_board is_parallel
       num_iterations =
     (let hole_cards' = map (Card X) hole_cards;
          adversary_hole_cards' = map (Card X) adversary_hole_cards;
          all_cards = [hole_cards', adversary_hole_cards'];
          hole_cards'' = [hole_cards', adversary_hole_cards'];
          given_board' = map_option (map (Card X)) given_board;
          all_cards' = (case given_board' of None \<Rightarrow> all_cards | Some gb \<Rightarrow> all_cards @ [gb]);
          deck = generate_deck X all_cards'
      in if is_parallel
         then u_parallel_evaluate X num_processes worker_of hole_cards'' deck given_board'
                num_iterations
         else u_evaluate X hole_cards'' deck given_board' num_iterations)"

section \<open>The trial body over an explicit store\<close>

text \<open>
  Python lists are objects: \<^verbatim>\<open>board.extend(...)\<close> changes the object \<^verbatim>\<open>board\<close> names,
  and every other name of that object sees the change. The store holds the sequence
  objects of a run by address (the position in the list); \<open>alloc\<close> adds an object at
  the next free address.
\<close>

type_synonym 'c heap = "'c list list"

definition alloc :: "'c heap \<Rightarrow> 'c list \<Rightarrow> 'c heap \<times> nat" where
  "alloc h v = (h @ [v], length h)"

text \<open>
  Lines 80-84 and 111-115 on addresses: \<^verbatim>\<open>given_board[:]\<close> allocates a copy,
  \<^verbatim>\<open>board.extend(remaining_board)\<close> writes to the copy, and
  \<^verbatim>\<open>board = remaining_board\<close> is a second name for the completion.
\<close>

definition make_board_store :: "'c heap \<Rightarrow> nat option \<Rightarrow> nat \<Rightarrow> 'c heap \<times> nat" where
  "make_board_store h given_board remaining_board =
     (case given_board of
        None \<Rightarrow> (h, remaining_board)
      | Some g \<Rightarrow>
          if h ! g \<noteq> [] then
            (let (h1, board) = alloc h (h ! g);
                 h2 = h1[board := h1 ! board @ h1 ! remaining_board]
             in (h2, board))
          else (h, remaining_board))"

text \<open>
  The loop over the stream, on the store. Each job is a tag (nothing in the sequential
  reducer, the number of the board in the parallel one) and the completion the
  generator yields, a new object. The body reads the hole cards and the board from the
  store as it is then; the store is returned also when the body raises.
\<close>

fun run_trials_store ::
  "('s \<Rightarrow> 'j \<Rightarrow> 'c list list \<Rightarrow> 'c list \<Rightarrow> error + 's) \<Rightarrow> nat list \<Rightarrow> nat option
     \<Rightarrow> 'c heap \<times> 's \<Rightarrow> ('j \<times> 'c list) list \<Rightarrow> 'c heap \<times> (error + 's)" where
  "run_trials_store body hole_cards given_board (h, st) [] = (h, Inr st)"
| "run_trials_store body hole_cards given_board (h, st) ((j, completion) # jobs) =
     (let (h1, remaining_board) = alloc h completion;
          (h2, board) = make_board_store h1 given_board remaining_board
      in case body st j (map ((!) h2) hole_cards) (h2 ! board) of
           Inl e \<Rightarrow> (h2, Inl e)
         | Inr st' \<Rightarrow> run_trials_store body hole_cards given_board (h2, st') jobs)"

definition u_evaluate_store ::
  "('c, 'p, 'k) holdem_functions \<Rightarrow> nat list \<Rightarrow> nat option \<Rightarrow> 'c heap \<Rightarrow> 'c list list
     \<Rightarrow> 'c heap \<times> (error + int list \<times> int list list)" where
  "u_evaluate_store X hole_cards given_board h boards =
     (let num_players = length hole_cards;
          winner_list = replicate (num_players + 1) 0;
          result_histograms = replicate num_players (replicate 10 0)
      in run_trials_store (\<lambda>st (j :: unit) hcs board. tabulate X hcs st board)
           hole_cards given_board (h, (winner_list, result_histograms)) (map (Pair ()) boards))"

definition pool_map_store ::
  "('c, 'p, 'k) holdem_functions \<Rightarrow> nat list \<Rightarrow> nat option \<Rightarrow> (nat \<Rightarrow> nat) \<Rightarrow> 'c heap
     \<Rightarrow> 32 word list \<times> 32 word list \<Rightarrow> 'c list list
     \<Rightarrow> 'c heap \<times> (error + 32 word list \<times> 32 word list)" where
  "pool_map_store X hole_cards given_board worker_of h st boards =
     run_trials_store
       (\<lambda>st k hcs board. shard_tabulate X hcs (worker_name (worker_of k)) st board)
       hole_cards given_board (h, st) (enumerate 0 boards)"

section \<open>The trial sources and the deck, from the specification\<close>

text \<open>
  Modelled from the spec: the combinations an exhaustive trial source enumerates are not
  in the module. \<open>combinations xs r\<close> lists every choice of \<open>r\<close> elements of \<open>xs\<close>
  once, in the order of \<open>xs\<close>; there is one choice of no element.
\<close>

fun combinations :: "'a list \<Rightarrow> nat \<Rightarrow> 'a list list" where
  "combinations xs 0 = [[]]"
| "combinations [] (Suc r) = []"
| "combinations (x # xs) (Suc r) = map ((#) x) (combinations xs r) @ combinations xs (Suc r)"

text \<open>
  Modelled from the spec: \<^verbatim>\<open>generate_exhaustive_boards\<close> is not in the module. Exhaustive
  mode produces every distinct combination of \<open>L\<close> cards of the deck exactly once, in a
  fixed order, where \<open>L\<close> is 5 minus the length of the given board, a board of 0 to 5
  cards; with \<open>L = 0\<close> it produces the one empty completion. The iteration budget is not
  used. For a board of more than five cards the specification defines no \<open>L\<close>, and the
  stream is left unspecified there.
\<close>

definition generate_exhaustive_boards_spec :: "'c list \<Rightarrow> int \<Rightarrow> nat \<Rightarrow> 'c list list" where
  "generate_exhaustive_boards_spec deck num_iterations given_length =
     (if given_length \<le> 5 then combinations deck (5 - given_length) else undefined)"

text \<open>
  Modelled from the spec: \<^verbatim>\<open>generate_random_boards\<close> is not in the module. Random mode
  produces \<open>N\<close> completions, each a sample of \<open>L\<close> cards of the whole deck; \<open>sample k\<close>
  is the draw of trial \<open>k\<close>, and every trial draws from the same deck.
\<close>

definition generate_random_boards_spec ::
  "(nat \<Rightarrow> 'c list \<Rightarrow> nat \<Rightarrow> 'c list) \<Rightarrow> 'c list \<Rightarrow> int \<Rightarrow> nat \<Rightarrow> 'c list list" where
  "generate_random_boards_spec sample deck num_iterations given_length =
     map (\<lambda>k. sample k deck (5 - given_length)) [0..<nat num_iterations]"

text \<open>
  Modelled from the spec: the sampler is not in the module. A draw is \<open>L\<close> distinct cards
  of the deck, sampled without replacement. (That the draws are uniform and independent
  is a statement about probabilities and has no counterpart here.)
\<close>

definition draws_from_deck :: "(nat \<Rightarrow> 'c list \<Rightarrow> nat \<Rightarrow> 'c list) \<Rightarrow> bool" where
  "draws_from_deck sample =
     (\<forall>k deck l. l \<le> length deck \<and> distinct deck \<longrightarrow>
        length (sample k deck l) = l \<and> distinct (sample k deck l)
        \<and> set (sample k deck l) \<subseteq> set deck)"

text \<open>
  Modelled from the spec: \<^verbatim>\<open>Card\<close> is not in the module. A card is a rank and a suit of
  the 52-card domain, here its two-character notation (rank, then suit), and two cards
  are equal when rank and suit are.
\<close>

definition full_deck :: "string list" where
  "full_deck = concat (map (\<lambda>s. map (\<lambda>r. [r, s]) ''23456789TJQKA'') ''shdc'')"

text \<open>
  Modelled from the spec: \<^verbatim>\<open>generate_deck\<close> is not in the module. The deck is the set of
  all cards without every card already known (any player's hole cards, the given board).
\<close>

definition generate_deck_spec :: "string list list \<Rightarrow> string list" where
  "generate_deck_spec all_cards = filter (\<lambda>c. c \<notin> set (concat all_cards)) full_deck"

section \<open>A hand oracle and a sampler for closed examples\<close>

text \<open>
  Modelled from the spec: the hand evaluation of \<^verbatim>\<open>holdem_functions\<close> is not in the
  module, and the specification gives its interface only: \<^verbatim>\<open>detect_hand\<close> returns a
  category 0..9 and a strength key, \<^verbatim>\<open>compare_hands\<close> returns 0 on a tie and \<open>i + 1\<close>
  when player \<open>i\<close> wins. The examples run the operations with the simplest oracle of that
  interface: every hand is of category 0 and is as strong as its highest hole card.
\<close>

definition rank_of :: "string \<Rightarrow> nat" where
  "rank_of c =
     (case c of
        [] \<Rightarrow> 0
      | r # _ \<Rightarrow>
          (case map_of (zip ''23456789TJQKA'' [2, 3, 4, 5, 6, 7, 8, 9, 10, 11, 12, 13, 14]) r of
             None \<Rightarrow> 0
           | Some v \<Rightarrow> v))"

definition highcard_detect_hand :: "string list \<Rightarrow> string list \<Rightarrow> unit \<Rightarrow> int \<times> nat" where
  "highcard_detect_hand hole_card board pre = (0, foldr max (map rank_of hole_card) 0)"

definition highcard_compare_hands :: "(int \<times> nat) list \<Rightarrow> int" where
  "highcard_compare_hands result_list =
     (let best = foldr max (map snd result_list) 0
      in case filter (\<lambda>(i, r). snd r = best) (enumerate 1 result_list) of
           [(i, r)] \<Rightarrow> int i
         | _ \<Rightarrow> 0)"

text \<open>
  Modelled from the spec: the sampler behind random mode is not in the module. In the
  examples the draw of trial \<open>k\<close> is the first \<open>L\<close> cards of the deck rotated by \<open>k\<close>:
  \<open>L\<close> cards of the deck, none twice.
\<close>

definition first_cards :: "nat \<Rightarrow> 'c list \<Rightarrow> nat \<Rightarrow> 'c list" where
  "first_cards k deck l = take l (rotate k deck)"

text \<open>The collaborators of the examples.\<close>

definition example_holdem :: "(string, unit, nat) holdem_functions" where
  "example_holdem =
     \<lparr> Card = (\<lambda>s. s),
       generate_deck = generate_deck_spec,
       generate_exhaustive_boards = generate_exhaustive_boards_spec,
       generate_random_boards = generate_random_boards_spec first_cards,
       preprocess_board = (\<lambda>board. ()),
       detect_hand = highcard_detect_hand,
       compare_hands = highcard_compare_hands \<rparr>"

section \<open>Notions used in the statements and proofs\<close>

text \<open>
  The trial stream of a call of \<^verbatim>\<open>evaluate\<close>: lines 43-50 followed by the choice of
  the generator, the same in both reducers.
\<close>

definition evaluate_boards ::
  "('c, 'p, 'k) holdem_functions \<Rightarrow> string list \<Rightarrow> string list \<Rightarrow> string list option \<Rightarrow> int
     \<Rightarrow> 'c list list" where
  "evaluate_boards X hole_cards adversary_hole_cards given_board num_iterations =
     (let given_board' = map_option (map (Card X)) given_board;
          all_cards = [map (Card X) hole_cards, map (Card X) adversary_hole_cards];
          all_cards' = (case given_board' of None \<Rightarrow> all_cards | Some gb \<Rightarrow> all_cards @ [gb])
      in generate_boards X given_board' (generate_deck X all_cards') num_iterations)"

text \<open>Lines 45-50: the deck of a call of \<^verbatim>\<open>evaluate\<close>.\<close>

definition evaluate_deck ::
  "('c, 'p, 'k) holdem_functions \<Rightarrow> string list \<Rightarrow> string list \<Rightarrow> string list option
     \<Rightarrow> 'c list" where
  "evaluate_deck X hole_cards adversary_hole_cards given_board =
     generate_deck X
       (case given_board of
          None \<Rightarrow> [map (Card X) hole_cards, map (Card X) adversary_hole_cards]
        | Some gb \<Rightarrow>
            [map (Card X) hole_cards, map (Card X) adversary_hole_cards] @ [map (Card X) gb])"

text \<open>
  Two workers write to the same shard exactly when their names end in the same digit
  (line 118). In a schedule with exclusive shards the workers that take the first \<open>m\<close>
  boards have different last digits unless they are the same worker.
\<close>

definition exclusive_shards :: "(nat \<Rightarrow> nat) \<Rightarrow> nat \<Rightarrow> bool" where
  "exclusive_shards worker_of m =
     (\<forall>i<m. \<forall>j<m. worker_of i mod 10 = worker_of j mod 10 \<longrightarrow> worker_of i = worker_of j)"

text \<open>Lines 43-48: the two players' hole cards and the board as \<^verbatim>\<open>evaluate\<close> passes them on.\<close>

definition parsed_hole_cards ::
  "('c, 'p, 'k) holdem_functions \<Rightarrow> string list \<Rightarrow> string list \<Rightarrow> 'c list list" where
  "parsed_hole_cards X hole_cards adversary_hole_cards =
     [map (Card X) hole_cards, map (Card X) adversary_hole_cards]"

definition parsed_board ::
  "('c, 'p, 'k) holdem_functions \<Rightarrow> string list option \<Rightarrow> 'c list option" where
  "parsed_board X given_board = map_option (map (Card X)) given_board"

text \<open>
  The interface of the hand oracle on the boards of a stream: \<^verbatim>\<open>compare_hands\<close> returns
  0 (tie) or \<open>i + 1\<close> for one of the players, and every hand category is one of 0..9.
\<close>

definition outcomes_in_range ::
  "('c, 'p, 'k) holdem_functions \<Rightarrow> 'c list list \<Rightarrow> 'c list option \<Rightarrow> 'c list list \<Rightarrow> bool" where
  "outcomes_in_range X hole_cards given_board boards =
     list_all (\<lambda>remaining_board.
        (let result_list = detect_all X hole_cards (make_board given_board remaining_board);
             winner_index = compare_hands X result_list
         in 0 \<le> winner_index \<and> winner_index \<le> int (length hole_cards)
            \<and> list_all (\<lambda>result. 0 \<le> fst result \<and> fst result \<le> 9) result_list)) boards"

text \<open>The shape of the tallies of \<open>n\<close> players: \<open>n + 1\<close> counters and \<open>n\<close> rows of 10.\<close>

definition rows10 :: "nat \<Rightarrow> int list list \<Rightarrow> bool" where
  "rows10 n hs = (length hs = n \<and> (\<forall>p<n. length (hs ! p) = 10))"

definition shape :: "nat \<Rightarrow> int list \<times> int list list \<Rightarrow> bool" where
  "shape n st = (length (fst st) = n + 1 \<and> rows10 n (snd st))"

text \<open>The bodies of the two reduction loops, and the reading of one histogram cell.\<close>

definition winner_step :: "nat \<Rightarrow> nat \<times> 32 word \<Rightarrow> int list \<Rightarrow> int list" where
  "winner_step m = (\<lambda>(index, element) combined.
       combined[index mod m := combined ! (index mod m) + sint element])"

definition histogram_step :: "nat \<Rightarrow> nat \<times> 32 word \<Rightarrow> int list list \<Rightarrow> int list list" where
  "histogram_step n = (\<lambda>(index, element) combined.
      combined[(index div 10) mod n :=
                 (combined ! ((index div 10) mod n))
                   [index mod 10 :=
                      combined ! ((index div 10) mod n) ! (index mod 10) + sint element]])"

definition cell :: "nat \<Rightarrow> int list list \<Rightarrow> nat \<times> nat \<Rightarrow> int" where
  "cell n hs pc = (if fst pc < n \<and> snd pc < 10 then hs ! fst pc ! snd pc else 0)"

text \<open>
  The shard a worker writes to. The index \<open>proc_id\<close> of a worker lies between \<open>-W\<close>
  and \<open>W - 1\<close>, and Python resolves a negative array index from the end: the writes of
  \<open>proc_id\<close> land in shard \<open>proc_id mod W\<close>.
\<close>

definition shard_of :: "nat \<Rightarrow> int \<Rightarrow> nat" where
  "shard_of W proc_id = nat (proc_id mod int W)"

text \<open>
  What the reduction adds up for one combined slot: the elements of a shared array whose
  position falls in bucket \<open>j\<close>. \<open>player_cell\<close> is the bucket of a histogram position.
\<close>

definition bucket_sum :: "(nat \<Rightarrow> 'j) \<Rightarrow> 'j \<Rightarrow> 32 word list \<Rightarrow> int" where
  "bucket_sum b j arr = (\<Sum>i<length arr. if b i = j then sint (arr ! i) else 0)"

definition player_cell :: "nat \<Rightarrow> nat \<Rightarrow> nat \<times> nat" where
  "player_cell n i = ((i div 10) mod n, i mod 10)"

text \<open>
  The shared arrays of \<open>W\<close> workers after \<open>t\<close> trials, next to the tallies of the
  sequential reducer after the same trials: no counter is negative, the win/tie counters
  add up to \<open>t\<close>, no histogram cell exceeds \<open>t\<close>, and every sequential counter is the
  sum of its bucket.
\<close>

definition sharded ::
  "nat \<Rightarrow> nat \<Rightarrow> nat \<Rightarrow> 32 word list \<times> 32 word list \<Rightarrow> int list \<times> int list list \<Rightarrow> bool" where
  "sharded W n t pst sst =
     (length (fst pst) = W * (n + 1) \<and> length (snd pst) = W * n * 10 \<and> shape n sst
      \<and> (\<forall>i<length (fst pst). 0 \<le> sint (fst pst ! i))
      \<and> sum_list (map sint (fst pst)) = int t
      \<and> (\<forall>i<length (snd pst). 0 \<le> sint (snd pst ! i) \<and> sint (snd pst ! i) \<le> int t)
      \<and> (\<forall>j<n + 1. fst sst ! j = bucket_sum (\<lambda>i. i mod (n + 1)) j (fst pst))
      \<and> (\<forall>p<n. \<forall>c<10. snd sst ! p ! c = bucket_sum (player_cell n) (p, c) (snd pst)))"

section \<open>Indexing and counter increments\<close>

lemma py_index_less: "py_index n i = Some k \<Longrightarrow> k < n"
  by (auto simp: py_index_def split: if_splits)

lemma py_index_nonneg: "0 \<le> i \<Longrightarrow> i < int n \<Longrightarrow> py_index n i = Some (nat i)"
  by (simp add: py_index_def)

lemma py_index_in_range: "- int n \<le> i \<Longrightarrow> i < int n \<Longrightarrow> \<exists>k<n. py_index n i = Some k"
  by (auto simp: py_index_def)

lemma py_incr_Inr:
  "py_incr xs i = Inr ys \<Longrightarrow>
     \<exists>k<length xs. py_index (length xs) i = Some k \<and> ys = xs[k := xs ! k + 1]"
  by (auto simp: py_incr_def split: option.splits dest: py_index_less)

lemma py_incr_length: "py_incr xs i = Inr ys \<Longrightarrow> length ys = length xs"
  by (auto dest: py_incr_Inr)

lemma py_incr_Some: "py_index (length xs) i = Some k \<Longrightarrow> py_incr xs i = Inr (xs[k := xs ! k + 1])"
  by (simp add: py_incr_def)

lemma sum_list_incr:
  fixes xs :: "int list"
  shows "k < length xs \<Longrightarrow> sum_list (xs[k := xs ! k + 1]) = sum_list xs + 1"
  by (induction xs arbitrary: k) (auto split: nat.splits)

lemma sum_list_replicate_zero: "sum_list (replicate n (0::int)) = 0"
  by (induction n) auto

section \<open>The sequential reducer\<close>

lemma tabulate_one_slot:
  "tabulate X hole_cards (wl, hs) board = Inr (wl', hs') \<Longrightarrow>
     \<exists>k<length wl. wl' = wl[k := wl ! k + 1]"
  by (auto simp: tabulate_def Let_def split: sum.splits dest: py_incr_Inr)

lemma run_trials_sum:
  assumes "run_trials (trial X hole_cards given_board) (wl, hs) boards = Inr (wl', hs')"
  shows "sum_list wl' = sum_list wl + int (length boards)"
  using assms
proof (induction boards arbitrary: wl hs)
  case Nil
  then show ?case by simp
next
  case (Cons b boards)
  from Cons.prems obtain wl1 hs1 where
    step: "trial X hole_cards given_board (wl, hs) b = Inr (wl1, hs1)" and
    rest: "run_trials (trial X hole_cards given_board) (wl1, hs1) boards = Inr (wl', hs')"
    by (auto split: sum.splits)
  from step obtain k where "k < length wl" "wl1 = wl[k := wl ! k + 1]"
    unfolding trial_def by (blast dest: tabulate_one_slot)
  then have "sum_list wl1 = sum_list wl + 1" by (simp add: sum_list_incr)
  with Cons.IH[OF rest] show ?case by simp
qed

lemma rows10_update:
  "rows10 n hs \<Longrightarrow> length h = 10 \<Longrightarrow> rows10 n (hs[i := h])"
  by (cases "i < length hs") (auto simp: rows10_def nth_list_update)

lemma incr_histograms_total:
  "index + length rs \<le> n \<Longrightarrow> rows10 n hs \<Longrightarrow>
   list_all (\<lambda>r. 0 \<le> fst r \<and> fst r \<le> 9) rs \<Longrightarrow>
   \<exists>hs'. incr_histograms hs index rs = Inr hs' \<and> rows10 n hs'"
proof (induction rs arbitrary: hs index)
  case Nil
  then show ?case by simp
next
  case (Cons r rs)
  have i: "index < length hs" using Cons.prems(1,2) by (simp add: rows10_def)
  then have len: "length (hs ! index) = 10" using Cons.prems(2) by (simp add: rows10_def)
  from Cons.prems(3) have "py_index 10 (fst r) = Some (nat (fst r))"
    by (simp add: py_index_nonneg)
  then have h: "py_incr (hs ! index) (fst r) =
      Inr ((hs ! index)[nat (fst r) := hs ! index ! nat (fst r) + 1])"
    using len by (simp add: py_incr_Some)
  have rows: "rows10 n (hs[index := (hs ! index)[nat (fst r) := hs ! index ! nat (fst r) + 1]])"
    using Cons.prems(2) len by (simp add: rows10_update)
  have "Suc index + length rs \<le> n" using Cons.prems(1) by simp
  from Cons.IH[OF this rows] Cons.prems(3) i h show ?case by auto
qed

lemma length_detect_all: "length (detect_all X hole_cards board) = length hole_cards"
  by (simp add: detect_all_def Let_def)

lemma tabulate_total:
  assumes "shape (length hole_cards) st"
    and "0 \<le> compare_hands X (detect_all X hole_cards board)"
    and "compare_hands X (detect_all X hole_cards board) \<le> int (length hole_cards)"
    and "list_all (\<lambda>r. 0 \<le> fst r \<and> fst r \<le> 9) (detect_all X hole_cards board)"
  shows "\<exists>st'. tabulate X hole_cards st board = Inr st' \<and> shape (length hole_cards) st'"
proof -
  let ?w = "compare_hands X (detect_all X hole_cards board)"
  have "py_index (length (fst st)) ?w = Some (nat ?w)"
    using assms(1,2,3) by (simp add: shape_def py_index_nonneg)
  then have wl: "py_incr (fst st) ?w = Inr ((fst st)[nat ?w := fst st ! nat ?w + 1])"
    by (rule py_incr_Some)
  have "0 + length (detect_all X hole_cards board) \<le> length hole_cards"
    by (simp add: length_detect_all)
  from incr_histograms_total[OF this _ assms(4)] assms(1)
  obtain hs' where "incr_histograms (snd st) 0 (detect_all X hole_cards board) = Inr hs'"
    "rows10 (length hole_cards) hs'"
    by (auto simp: shape_def)
  with wl assms(1) show ?thesis
    by (auto simp: tabulate_def Let_def shape_def)
qed

lemma outcomes_in_range_Cons:
  "outcomes_in_range X hole_cards given_board (b # boards) \<longleftrightarrow>
     (0 \<le> compare_hands X (detect_all X hole_cards (make_board given_board b))
      \<and> compare_hands X (detect_all X hole_cards (make_board given_board b)) \<le> int (length hole_cards)
      \<and> list_all (\<lambda>r. 0 \<le> fst r \<and> fst r \<le> 9) (detect_all X hole_cards (make_board given_board b)))
     \<and> outcomes_in_range X hole_cards given_board boards"
  by (simp add: outcomes_in_range_def Let_def)

lemma run_trials_total:
  assumes "shape (length hole_cards) st" "outcomes_in_range X hole_cards given_board boards"
  shows "\<exists>st'. run_trials (trial X hole_cards given_board) st boards = Inr st'
           \<and> shape (length hole_cards) st'"
  using assms
proof (induction boards arbitrary: st)
  case Nil
  then show ?case by simp
next
  case (Cons b boards)
  from Cons.prems(2) have
    b: "0 \<le> compare_hands X (detect_all X hole_cards (make_board given_board b))"
       "compare_hands X (detect_all X hole_cards (make_board given_board b)) \<le> int (length hole_cards)"
       "list_all (\<lambda>r. 0 \<le> fst r \<and> fst r \<le> 9) (detect_all X hole_cards (make_board given_board b))"
    and rest: "outcomes_in_range X hole_cards given_board boards"
    by (simp_all add: outcomes_in_range_Cons)
  from tabulate_total[OF Cons.prems(1) b] obtain st1 where
    st1: "trial X hole_cards given_board st b = Inr st1" "shape (length hole_cards) st1"
    by (auto simp: trial_def)
  from Cons.IH[OF st1(2) rest] st1(1) show ?case by auto
qed

lemma shape_init: "shape n (replicate (n + 1) 0, replicate n (replicate 10 0))"
  by (simp add: shape_def rows10_def)

lemma u_evaluate_tally_total:
  assumes "outcomes_in_range X hole_cards given_board boards"
  shows "\<exists>wl hs. u_evaluate_tally X hole_cards given_board boards = Inr (wl, hs)
           \<and> shape (length hole_cards) (wl, hs)"
  using run_trials_total[OF shape_init assms]
  unfolding u_evaluate_tally_def Let_def by (metis surj_pair)

lemma u_evaluate_tally_sum:
  assumes "u_evaluate_tally X hole_cards given_board boards = Inr (wl, hs)"
  shows "sum_list wl = int (length boards)"
  using assms unfolding u_evaluate_tally_def Let_def
  by (auto dest!: run_trials_sum simp: sum_list_replicate_zero)

text \<open>
  C7. After the sequential reducer has processed a finite stream, the win and tie
  counters add up to the number of trials of the stream: every trial adds one to
  exactly one slot of \<open>winner_list\<close>. The reducer does process the whole stream when
  the oracle keeps to its interface on it.
\<close>

theorem sequential_counts_sum_to_trials:
  "(\<forall>wl hs. u_evaluate_tally X hole_cards given_board boards = Inr (wl, hs)
       \<longrightarrow> sum_list wl = int (length boards))
   \<and> (\<forall>wl hs wl' hs' b. trial X hole_cards given_board (wl, hs) b = Inr (wl', hs')
       \<longrightarrow> (\<exists>k<length wl. wl' = wl[k := wl ! k + 1]))
   \<and> (outcomes_in_range X hole_cards given_board boards
       \<longrightarrow> (\<exists>wl hs. u_evaluate_tally X hole_cards given_board boards = Inr (wl, hs)))"
proof (intro conjI allI impI)
  fix wl hs
  assume "u_evaluate_tally X hole_cards given_board boards = Inr (wl, hs)"
  then show "sum_list wl = int (length boards)" by (rule u_evaluate_tally_sum)
next
  fix wl hs wl' hs' b
  assume "trial X hole_cards given_board (wl, hs) b = Inr (wl', hs')"
  then show "\<exists>k<length wl. wl' = wl[k := wl ! k + 1]"
    unfolding trial_def by (rule tabulate_one_slot)
next
  assume "outcomes_in_range X hole_cards given_board boards"
  from u_evaluate_tally_total[OF this]
  show "\<exists>wl hs. u_evaluate_tally X hole_cards given_board boards = Inr (wl, hs)" by blast
qed

theorem sequential_counts_sum_to_trials_witness:
  "outcomes_in_range example_holdem [[''As'', ''Ad''], [''Kd'', ''Kc'']] None
     [[''2c'', ''3c'', ''4c'', ''5c'', ''7d''], [''2h'', ''3h'', ''4h'', ''5h'', ''7s'']]
   \<and> (\<exists>wl hs. u_evaluate_tally example_holdem [[''As'', ''Ad''], [''Kd'', ''Kc'']] None
         [[''2c'', ''3c'', ''4c'', ''5c'', ''7d''], [''2h'', ''3h'', ''4h'', ''5h'', ''7s'']]
           = Inr (wl, hs) \<and> sum_list wl = 2)"
proof -
  let ?hc = "[[''As'', ''Ad''], [''Kd'', ''Kc'']]"
  let ?bs = "[[''2c'', ''3c'', ''4c'', ''5c'', ''7d''], [''2h'', ''3h'', ''4h'', ''5h'', ''7s'']]"
  have r: "outcomes_in_range example_holdem ?hc None ?bs" by code_simp
  from sequential_counts_sum_to_trials[of example_holdem ?hc None ?bs] r
  show ?thesis by auto
qed

section \<open>The reduction of the shards\<close>

lemma bucket_fold:
  fixes step :: "nat \<times> 32 word \<Rightarrow> 's \<Rightarrow> 's" and read :: "'s \<Rightarrow> 'j \<Rightarrow> int"
  assumes step: "\<And>i e st j. I st \<Longrightarrow>
      I (step (i, e) st) \<and> read (step (i, e) st) j = read st j + (if b i = j then sint e else 0)"
    and "I st"
  shows "I (fold step (enumerate off arr) st) \<and>
     read (fold step (enumerate off arr) st) j =
       read st j + (\<Sum>i<length arr. if b (off + i) = j then sint (arr ! i) else 0)"
  using \<open>I st\<close>
proof (induction arr arbitrary: off st)
  case Nil
  then show ?case by simp
next
  case (Cons e arr)
  from step[OF Cons.prems, of off e] have
    I1: "I (step (off, e) st)" and
    r1: "read (step (off, e) st) j = read st j + (if b off = j then sint e else 0)"
    by blast+
  from Cons.IH[OF I1, of "Suc off"] r1
  show ?case by (simp add: sum.lessThan_Suc_shift del: sum.lessThan_Suc cong: if_cong)
qed

lemma bucket_fold_shards:
  fixes step :: "nat \<times> 32 word \<Rightarrow> 's \<Rightarrow> 's" and read :: "'s \<Rightarrow> 'j \<Rightarrow> int"
  assumes step: "\<And>i e st j. I st \<Longrightarrow>
      I (step (i, e) st) \<and> read (step (i, e) st) j = read st j + (if b i = j then sint e else 0)"
    and period: "\<And>k i. b (k * l + i) = b i"
    and "I st" and "\<forall>s\<in>set ss. length s = l"
  shows "I (fold step (enumerate (k * l) (concat ss)) st) \<and>
     read (fold step (enumerate (k * l) (concat ss)) st) j =
       read st j + (\<Sum>s\<leftarrow>ss. \<Sum>i<l. if b i = j then sint (s ! i) else 0)"
  using \<open>I st\<close> \<open>\<forall>s\<in>set ss. length s = l\<close>
proof (induction ss arbitrary: k st)
  case Nil
  then show ?case by simp
next
  case (Cons s ss)
  have l: "length s = l" using Cons.prems(2) by simp
  from bucket_fold[of I step read b, OF step Cons.prems(1), of "k * l" s j] have
    I1: "I (fold step (enumerate (k * l) s) st)" and
    r1: "read (fold step (enumerate (k * l) s) st) j =
           read st j + (\<Sum>i<l. if b i = j then sint (s ! i) else 0)"
    by (simp_all add: l period)
  have "k * l + length s = Suc k * l" using l by simp
  then have split: "enumerate (k * l) (concat (s # ss)) =
      enumerate (k * l) s @ enumerate (Suc k * l) (concat ss)"
    by (simp add: enumerate_append_eq del: mult_Suc)
  from Cons.IH[OF I1, of "Suc k"] Cons.prems(2) r1 show ?case
    unfolding split by (simp del: mult_Suc)
qed

lemma sum_list_mset_cong:
  fixes g :: "'a \<Rightarrow> int"
  shows "mset xs = mset ys \<Longrightarrow> sum_list (map g xs) = sum_list (map g ys)"
proof -
  assume "mset xs = mset ys"
  then have "mset (map g xs) = mset (map g ys)" by simp
  then show ?thesis by (metis sum_mset_sum_list)
qed

lemma winner_step_ok:
  assumes "0 < m" "length acc = m"
  shows "length (winner_step m (i, e) acc) = m \<and>
    (if j < m then winner_step m (i, e) acc ! j else 0) =
    (if j < m then acc ! j else 0) + (if i mod m = j then sint e else 0)"
  using assms by (auto simp: winner_step_def nth_list_update)

lemma sum_delta_nth:
  fixes g :: "nat \<Rightarrow> int"
  shows "j < m \<Longrightarrow> (\<Sum>i<m. if i = j then g i else 0) = g j"
  by (simp add: sum.delta')

lemma fold_winner_step:
  assumes "0 < m" "\<forall>s\<in>set ss. length s = m" "j < m"
  shows "length (fold (winner_step m) (enumerate 0 (concat ss)) (replicate m 0)) = m"
    and "fold (winner_step m) (enumerate 0 (concat ss)) (replicate m 0) ! j = (\<Sum>s\<leftarrow>ss. sint (s ! j))"
proof -
  let ?I = "\<lambda>acc :: int list. length acc = m"
  let ?read = "\<lambda>(acc :: int list) j. if j < m then acc ! j else 0"
  let ?res = "fold (winner_step m) (enumerate 0 (concat ss)) (replicate m 0)"
  have step: "\<And>i e st j. ?I st \<Longrightarrow> ?I (winner_step m (i, e) st) \<and>
      ?read (winner_step m (i, e) st) j = ?read st j + (if i mod m = j then sint e else 0)"
    using winner_step_ok[OF assms(1)] by simp
  have period: "\<And>k i. (k * m + i) mod m = i mod m" by (rule mod_mult_self3)
  have init: "?I (replicate m 0)" by simp
  have "?I (fold (winner_step m) (enumerate (0 * m) (concat ss)) (replicate m 0)) \<and>
     ?read (fold (winner_step m) (enumerate (0 * m) (concat ss)) (replicate m 0)) j =
       ?read (replicate m 0) j + (\<Sum>s\<leftarrow>ss. \<Sum>i<m. if i mod m = j then sint (s ! i) else 0)"
    by (rule bucket_fold_shards[of ?I "winner_step m" ?read "\<lambda>i. i mod m" m "replicate m 0" ss 0 j,
      OF step period init assms(2)])
  then have L: "length ?res = m"
    and R: "?res ! j = (\<Sum>s\<leftarrow>ss. \<Sum>i<m. if i mod m = j then sint (s ! i) else 0)"
    using assms(3) by simp_all
  have delta: "(\<Sum>i<m. if i mod m = j then sint (s ! i) else 0) = sint (s ! j)"
    for s :: "32 word list"
  proof -
    have "(\<Sum>i<m. if i mod m = j then sint (s ! i) else 0) =
          (\<Sum>i<m. if i = j then sint (s ! i) else 0)"
      by (rule sum.cong) auto
    also have "\<dots> = sint (s ! j)" by (rule sum_delta_nth[OF assms(3)])
    finally show ?thesis .
  qed
  show "length ?res = m" by (rule L)
  show "?res ! j = (\<Sum>s\<leftarrow>ss. sint (s ! j))" using R by (simp only: delta)
qed

lemma combine_winner_list_nth:
  assumes "\<forall>s\<in>set ss. length s = n + 1" "j < n + 1"
  shows "length (combine_winner_list n (concat ss)) = n + 1"
    and "combine_winner_list n (concat ss) ! j = (\<Sum>s\<leftarrow>ss. sint (s ! j))"
proof -
  have cw: "combine_winner_list n (concat ss) =
      fold (winner_step (n + 1)) (enumerate 0 (concat ss)) (replicate (n + 1) 0)"
    unfolding combine_winner_list_def winner_step_def ..
  have pos: "0 < n + 1" by simp
  show "length (combine_winner_list n (concat ss)) = n + 1"
    unfolding cw by (rule fold_winner_step(1)[OF pos assms])
  show "combine_winner_list n (concat ss) ! j = (\<Sum>s\<leftarrow>ss. sint (s ! j))"
    unfolding cw by (rule fold_winner_step(2)[OF pos assms])
qed

lemma combine_winner_list_perm:
  assumes "mset ss' = mset ss" "\<forall>s\<in>set ss. length s = n + 1"
  shows "combine_winner_list n (concat ss') = combine_winner_list n (concat ss)"
proof (rule nth_equalityI)
  have ss': "\<forall>s\<in>set ss'. length s = n + 1" using assms by (metis set_mset_mset)
  show "length (combine_winner_list n (concat ss')) = length (combine_winner_list n (concat ss))"
    using combine_winner_list_nth(1)[OF assms(2), of 0] combine_winner_list_nth(1)[OF ss', of 0] by simp
  fix j assume "j < length (combine_winner_list n (concat ss'))"
  then have j: "j < n + 1" using combine_winner_list_nth(1)[OF ss', of 0] by simp
  show "combine_winner_list n (concat ss') ! j = combine_winner_list n (concat ss) ! j"
    using combine_winner_list_nth(2)[OF assms(2) j] combine_winner_list_nth(2)[OF ss' j]
      sum_list_mset_cong[OF assms(1), of "\<lambda>s. sint (s ! j)"] by simp
qed


lemma histogram_step_ok:
  assumes "0 < n" "rows10 n hs"
  shows "rows10 n (histogram_step n (i, e) hs) \<and>
    cell n (histogram_step n (i, e) hs) pc =
      cell n hs pc + (if ((i div 10) mod n, i mod 10) = pc then sint e else 0)"
proof -
  have p: "(i div 10) mod n < n" using assms(1) by simp
  have c: "i mod 10 < 10" by simp
  show ?thesis
    using assms p c
    by (cases pc) (auto simp: histogram_step_def rows10_def cell_def nth_list_update)
qed

lemma histogram_period:
  fixes k n i :: nat
  shows "(((k * (n * 10) + i) div 10) mod n, (k * (n * 10) + i) mod 10) = ((i div 10) mod n, i mod 10)"
proof -
  have a: "k * (n * 10) + i = 10 * (k * n) + i" by simp
  have "(k * (n * 10) + i) div 10 = k * n + i div 10" unfolding a by simp
  moreover have "(k * (n * 10) + i) mod 10 = i mod 10" unfolding a by simp
  ultimately show ?thesis by simp
qed

lemma histogram_delta:
  fixes p n c :: nat
  assumes "p < n" "c < 10"
  shows "(\<Sum>i<n * 10. if ((i div 10) mod n, i mod 10) = (p, c) then g i else 0) = (g (10 * p + c) :: int)"
proof -
  have "10 * p + c < 10 * Suc p" using assms(2) by simp
  also have "\<dots> \<le> 10 * n" using assms(1) by (simp only: mult_le_mono2 Suc_leI)
  finally have in_range: "10 * p + c < n * 10" by (simp add: mult.commute)
  have "(\<Sum>i<n * 10. if ((i div 10) mod n, i mod 10) = (p, c) then g i else 0) =
        (\<Sum>i<n * 10. if i = 10 * p + c then g i else 0)"
  proof (rule sum.cong)
    fix i assume "i \<in> {..<n * 10}"
    then have "i div 10 < n" by (simp add: less_mult_imp_div_less)
    then have "(i div 10) mod n = i div 10" by simp
    moreover have "(i div 10 = p \<and> i mod 10 = c) = (i = 10 * p + c)" using assms(2) by auto
    ultimately show "(if ((i div 10) mod n, i mod 10) = (p, c) then g i else 0) =
        (if i = 10 * p + c then g i else 0)" by simp
  qed simp
  also have "\<dots> = g (10 * p + c)" by (rule sum_delta_nth[OF in_range])
  finally show ?thesis .
qed

lemma fold_histogram_step:
  assumes "0 < n" "\<forall>s\<in>set ss. length s = n * 10" "p < n" "c < 10"
  shows "rows10 n (fold (histogram_step n) (enumerate 0 (concat ss)) (replicate n (replicate 10 0)))"
    and "fold (histogram_step n) (enumerate 0 (concat ss)) (replicate n (replicate 10 0)) ! p ! c =
           (\<Sum>s\<leftarrow>ss. sint (s ! (10 * p + c)))"
proof -
  let ?b = "\<lambda>i. ((i div 10) mod n, i mod 10)"
  let ?init = "replicate n (replicate 10 (0::int))"
  let ?res = "fold (histogram_step n) (enumerate 0 (concat ss)) ?init"
  have step: "\<And>i e st j. rows10 n st \<Longrightarrow> rows10 n (histogram_step n (i, e) st) \<and>
      cell n (histogram_step n (i, e) st) j = cell n st j + (if ?b i = j then sint e else 0)"
    by (rule histogram_step_ok[OF assms(1)])
  have period: "\<And>k i. ?b (k * (n * 10) + i) = ?b i" by (rule histogram_period)
  have init: "rows10 n ?init" by (simp add: rows10_def)
  have "rows10 n (fold (histogram_step n) (enumerate (0 * (n * 10)) (concat ss)) ?init) \<and>
     cell n (fold (histogram_step n) (enumerate (0 * (n * 10)) (concat ss)) ?init) (p, c) =
       cell n ?init (p, c) + (\<Sum>s\<leftarrow>ss. \<Sum>i<n * 10. if ?b i = (p, c) then sint (s ! i) else 0)"
    by (rule bucket_fold_shards[of "rows10 n" "histogram_step n" "cell n" ?b "n * 10" ?init ss 0 "(p, c)",
      OF step period init assms(2)])
  then have L: "rows10 n ?res"
    and R: "?res ! p ! c = (\<Sum>s\<leftarrow>ss. \<Sum>i<n * 10. if ?b i = (p, c) then sint (s ! i) else 0)"
    using assms(3,4) by (simp_all add: cell_def)
  show "rows10 n ?res" by (rule L)
  show "?res ! p ! c = (\<Sum>s\<leftarrow>ss. sint (s ! (10 * p + c)))"
    using R by (simp only: histogram_delta[OF assms(3,4)])
qed

lemma combine_histograms_shards:
  assumes "\<forall>s\<in>set ss. length s = n * 10"
  shows "\<exists>hs. combine_histograms n (concat ss) = Inr hs \<and> rows10 n hs \<and>
           (\<forall>p<n. \<forall>c<10. hs ! p ! c = (\<Sum>s\<leftarrow>ss. sint (s ! (10 * p + c))))"
proof (cases "n = 0")
  case True
  with assms have "concat ss = []" by simp
  with True show ?thesis by (simp add: combine_histograms_def rows10_def del: concat_eq_Nil_conv)
next
  case False
  then have pos: "0 < n" by simp
  have ch: "combine_histograms n (concat ss) =
      Inr (fold (histogram_step n) (enumerate 0 (concat ss)) (replicate n (replicate 10 0)))"
    using False unfolding combine_histograms_def histogram_step_def by simp
  have rows: "rows10 n (fold (histogram_step n) (enumerate 0 (concat ss)) (replicate n (replicate 10 0)))"
    using fold_histogram_step(1)[OF pos assms pos, of 0] by simp
  show ?thesis unfolding ch
    using rows fold_histogram_step(2)[OF pos assms] by blast
qed

lemma rows10_eqI:
  assumes "rows10 n hs" "rows10 n hs'" "\<And>p c. p < n \<Longrightarrow> c < 10 \<Longrightarrow> hs ! p ! c = hs' ! p ! c"
  shows "hs = hs'"
proof (rule nth_equalityI)
  show "length hs = length hs'" using assms(1,2) by (simp add: rows10_def)
  fix p assume "p < length hs"
  then have p: "p < n" using assms(1) by (simp add: rows10_def)
  show "hs ! p = hs' ! p"
  proof (rule nth_equalityI)
    show "length (hs ! p) = length (hs' ! p)" using assms(1,2) p by (simp add: rows10_def)
    fix c assume "c < length (hs ! p)"
    then have "c < 10" using assms(1) p by (simp add: rows10_def)
    then show "hs ! p ! c = hs' ! p ! c" using p by (rule assms(3)[rotated])
  qed
qed

lemma combine_histograms_perm:
  assumes "mset ss' = mset ss" "\<forall>s\<in>set ss. length s = n * 10"
  shows "combine_histograms n (concat ss') = combine_histograms n (concat ss)"
proof -
  have ss': "\<forall>s\<in>set ss'. length s = n * 10" using assms by (metis set_mset_mset)
  from combine_histograms_shards[OF assms(2)] obtain hs where
    hs: "combine_histograms n (concat ss) = Inr hs" "rows10 n hs"
        "\<forall>p<n. \<forall>c<10. hs ! p ! c = (\<Sum>s\<leftarrow>ss. sint (s ! (10 * p + c)))" by blast
  from combine_histograms_shards[OF ss'] obtain hs' where
    hs': "combine_histograms n (concat ss') = Inr hs'" "rows10 n hs'"
        "\<forall>p<n. \<forall>c<10. hs' ! p ! c = (\<Sum>s\<leftarrow>ss'. sint (s ! (10 * p + c)))" by blast
  have "hs' = hs"
  proof (rule rows10_eqI[OF hs'(2) hs(2)])
    fix p c :: nat assume "p < n" "c < 10"
    then show "hs' ! p ! c = hs ! p ! c"
      using hs(3) hs'(3) sum_list_mset_cong[OF assms(1), of "\<lambda>s. sint (s ! (10 * p + c))"] by simp
  qed
  with hs(1) hs'(1) show ?thesis by simp
qed


text \<open>
  C8. The reduction adds the shards position by position: slot \<open>j\<close> of the combined
  win/tie counters is the sum of slot \<open>j\<close> of every worker's shard, and cell \<open>c\<close> of
  player \<open>p\<close>'s combined histogram is the sum of cell \<open>10 * p + c\<close> of every worker's
  shard. Both combined tallies are the same for every order of the shards.
\<close>

theorem reduction_sums_shards_in_any_order:
  assumes "mset ws' = mset ws" and "\<forall>s\<in>set ws. length s = n + 1"
    and "mset hs' = mset hs" and "\<forall>s\<in>set hs. length s = n * 10"
  shows "combine_winner_list n (concat ws') = combine_winner_list n (concat ws)
     \<and> combine_histograms n (concat hs') = combine_histograms n (concat hs)
     \<and> length (combine_winner_list n (concat ws)) = n + 1
     \<and> (\<forall>j<n + 1. combine_winner_list n (concat ws) ! j = (\<Sum>s\<leftarrow>ws. sint (s ! j)))
     \<and> (\<exists>combined. combine_histograms n (concat hs) = Inr combined \<and> rows10 n combined
           \<and> (\<forall>p<n. \<forall>c<10. combined ! p ! c = (\<Sum>s\<leftarrow>hs. sint (s ! (10 * p + c)))))"
proof (intro conjI)
  show "combine_winner_list n (concat ws') = combine_winner_list n (concat ws)"
    by (rule combine_winner_list_perm[OF assms(1,2)])
  show "combine_histograms n (concat hs') = combine_histograms n (concat hs)"
    by (rule combine_histograms_perm[OF assms(3,4)])
  show "length (combine_winner_list n (concat ws)) = n + 1"
    using combine_winner_list_nth(1)[OF assms(2), of 0] by simp
  show "\<forall>j<n + 1. combine_winner_list n (concat ws) ! j = (\<Sum>s\<leftarrow>ws. sint (s ! j))"
    using combine_winner_list_nth(2)[OF assms(2)] by blast
  show "\<exists>combined. combine_histograms n (concat hs) = Inr combined \<and> rows10 n combined
           \<and> (\<forall>p<n. \<forall>c<10. combined ! p ! c = (\<Sum>s\<leftarrow>hs. sint (s ! (10 * p + c))))"
    by (rule combine_histograms_shards[OF assms(4)])
qed

theorem reduction_sums_shards_in_any_order_witness:
  "mset [[0, 0, 1], [0, 2, 0 :: 32 word]] = mset [[0, 2, 0], [0, 0, 1]]
   \<and> combine_winner_list 2 (concat [[0, 0, 1], [0, 2, 0]])
       = combine_winner_list 2 (concat [[0, 2, 0], [0, 0, 1]])
   \<and> combine_histograms 2 (concat [replicate 20 1, replicate 20 0])
       = combine_histograms 2 (concat [replicate 20 0, replicate 20 1])
   \<and> combine_winner_list 2 (concat [[0, 2, 0], [0, 0, 1]]) ! 1 = 2"
proof -
  have m: "mset [[0, 0, 1], [0, 2, 0 :: 32 word]] = mset [[0, 2, 0], [0, 0, 1]]"
    by (simp add: add.commute)
  have mh: "mset [replicate 20 1, replicate 20 (0 :: 32 word)] = mset [replicate 20 0, replicate 20 1]"
    by (simp add: add.commute)
  have l: "\<forall>s\<in>set [[0, 2, 0], [0, 0, 1 :: 32 word]]. length s = 2 + 1" by simp
  have lh: "\<forall>s\<in>set [replicate 20 0, replicate 20 (1 :: 32 word)]. length s = 2 * 10" by simp
  from reduction_sums_shards_in_any_order[OF m l mh lh] m
  show ?thesis by simp
qed

section \<open>Worker names and shard indices\<close>

lemma digit_of_digit_char: "d < 10 \<Longrightarrow> digit_of_char (digit_char d) = Some d"
proof -
  assume "d < 10"
  then have "d \<in> {0, 1, 2, 3, 4, 5, 6, 7, 8, 9}" by auto
  then show ?thesis by (auto simp: digit_of_char_def digit_char_def)
qed

lemma last_str: "last (str n) = digit_char (n mod 10)"
  by (subst str.simps) simp

lemma str_nonempty: "str n \<noteq> []"
  by (subst str.simps) simp

lemma proc_id_of_worker_name: "proc_id_of (worker_name w) = Inr (int (w mod 10) - 1)"
  by (simp add: proc_id_of_def worker_name_def last_str str_nonempty digit_of_digit_char)

lemma worker_proc_id_range:
  assumes "1 \<le> w" "w \<le> W"
  shows "- int W \<le> int (w mod 10) - 1" and "int (w mod 10) - 1 < int W"
proof -
  have "w mod 10 \<le> w" by simp
  with assms show "- int W \<le> int (w mod 10) - 1" and "int (w mod 10) - 1 < int W"
    by linarith+
qed

lemma shard_of_proc:
  fixes P :: int and W :: nat
  assumes "- int W \<le> P" "P < int W"
  shows "shard_of W P < W" and "int (shard_of W P) = (if P < 0 then P + int W else P)"
proof -
  have m: "P mod int W = (if P < 0 then P + int W else P)"
  proof (cases "P < 0")
    case True
    then have "(P + int W) mod int W = P + int W" using assms by (intro mod_pos_pos_trivial) auto
    then show ?thesis using True by simp
  next
    case False
    then show ?thesis using assms by simp
  qed
  show "int (shard_of W P) = (if P < 0 then P + int W else P)"
    unfolding shard_of_def using m assms by auto
  then show "shard_of W P < W" using assms by (auto split: if_splits)
qed

lemma resolve_winner_slot:
  fixes P wi :: int and W n :: nat
  assumes "- int W \<le> P" "P < int W" "0 \<le> wi" "wi \<le> int n"
  shows "py_index (W * (n + 1)) (winner_slot P (int n) wi) = Some (shard_of W P * (n + 1) + nat wi)"
proof -
  let ?Q = "shard_of W P"
  have Q: "?Q < W" "int ?Q = (if P < 0 then P + int W else P)"
    using shard_of_proc[OF assms(1,2)] by auto
  have "(int ?Q + 1) * (int n + 1) \<le> int W * (int n + 1)"
    using Q(1) by (intro mult_right_mono) auto
  then have hi: "int ?Q * (int n + 1) + wi < int W * (int n + 1)"
    using assms(4) by (simp add: algebra_simps)
  have val: "int (?Q * (n + 1) + nat wi) = int ?Q * (int n + 1) + wi"
    using assms(3) by (simp add: algebra_simps)
  show ?thesis
  proof (cases "P < 0")
    case True
    then have q: "int ?Q = P + int W" using Q(2) by simp
    have neg: "winner_slot P (int n) wi < 0"
    proof -
      have "P * (int n + 1) \<le> - 1 * (int n + 1)" using True by (intro mult_right_mono) auto
      with assms(4) show ?thesis by (simp add: winner_slot_def)
    qed
    have eq: "int (W * (n + 1)) + winner_slot P (int n) wi = int ?Q * (int n + 1) + wi"
      by (simp add: q winner_slot_def algebra_simps)
    have lo: "- int (W * (n + 1)) \<le> winner_slot P (int n) wi"
    proof -
      have "0 \<le> int ?Q * (int n + 1) + wi" using assms(3) by simp
      with eq show ?thesis by linarith
    qed
    have "nat (int (W * (n + 1)) + winner_slot P (int n) wi) = ?Q * (n + 1) + nat wi"
      unfolding eq using val by (metis nat_int)
    with neg lo show ?thesis by (simp add: py_index_def)
  next
    case False
    then have q: "int ?Q = P" using Q(2) by simp
    have eq: "winner_slot P (int n) wi = int ?Q * (int n + 1) + wi"
      by (simp add: q winner_slot_def)
    have "nat (winner_slot P (int n) wi) = ?Q * (n + 1) + nat wi"
      unfolding eq using val by (metis nat_int)
    moreover have "0 \<le> winner_slot P (int n) wi" unfolding eq using assms(3) by simp
    moreover have "winner_slot P (int n) wi < int (W * (n + 1))"
      unfolding eq using hi by (simp add: algebra_simps)
    ultimately show ?thesis by (simp add: py_index_def)
  qed
qed

lemma resolve_histogram_slot:
  fixes P c :: int and W n i :: nat
  assumes "- int W \<le> P" "P < int W" "i < n" "0 \<le> c" "c \<le> 9"
  shows "py_index (W * n * 10) (histogram_slot P (int n) (int i) c)
           = Some (10 * (shard_of W P * n + i) + nat c)"
proof -
  let ?Q = "shard_of W P"
  have Q: "?Q < W" "int ?Q = (if P < 0 then P + int W else P)"
    using shard_of_proc[OF assms(1,2)] by auto
  have "(int ?Q + 1) * int n \<le> int W * int n"
    using Q(1) by (intro mult_right_mono) auto
  then have hi: "10 * (int ?Q * int n + int i) + c < int W * int n * 10"
    using assms(3,5) by (simp add: algebra_simps)
  have val: "int (10 * (?Q * n + i) + nat c) = 10 * (int ?Q * int n + int i) + c"
    using assms(4) by simp
  show ?thesis
  proof (cases "P < 0")
    case True
    then have q: "int ?Q = P + int W" using Q(2) by simp
    have neg: "histogram_slot P (int n) (int i) c < 0"
    proof -
      have "P * int n \<le> - 1 * int n" using True by (intro mult_right_mono) auto
      with assms(3,5) show ?thesis by (simp add: histogram_slot_def)
    qed
    have eq: "int (W * n * 10) + histogram_slot P (int n) (int i) c
                = 10 * (int ?Q * int n + int i) + c"
      by (simp add: q histogram_slot_def algebra_simps)
    have lo: "- int (W * n * 10) \<le> histogram_slot P (int n) (int i) c"
    proof -
      have "0 \<le> 10 * (int ?Q * int n + int i) + c" using assms(4) by simp
      with eq show ?thesis by linarith
    qed
    have "nat (int (W * n * 10) + histogram_slot P (int n) (int i) c) = 10 * (?Q * n + i) + nat c"
      unfolding eq using val by (metis nat_int)
    with neg lo show ?thesis by (simp add: py_index_def)
  next
    case False
    then have q: "int ?Q = P" using Q(2) by simp
    have eq: "histogram_slot P (int n) (int i) c = 10 * (int ?Q * int n + int i) + c"
      by (simp add: q histogram_slot_def)
    have "nat (histogram_slot P (int n) (int i) c) = 10 * (?Q * n + i) + nat c"
      unfolding eq using val by (metis nat_int)
    moreover have "0 \<le> histogram_slot P (int n) (int i) c" unfolding eq using assms(4) by simp
    moreover have "histogram_slot P (int n) (int i) c < int (W * n * 10)"
      unfolding eq using hi by simp
    ultimately show ?thesis by (simp add: py_index_def)
  qed
qed

lemma winner_slot_bucket:
  assumes "wi \<le> int n" "0 \<le> wi"
  shows "(Q * (n + 1) + nat wi) mod (n + 1) = nat wi"
proof -
  have "nat wi < n + 1" using assms by simp
  then have "nat wi mod (n + 1) = nat wi" by (rule mod_less)
  then show ?thesis by (simp only: mod_mult_self3)
qed

lemma histogram_slot_bucket:
  fixes c :: int and n i Q :: nat
  assumes "i < n" "0 \<le> c" "c \<le> 9"
  shows "player_cell n (10 * (Q * n + i) + nat c) = (i, nat c)"
proof -
  have c: "nat c < 10" using assms by simp
  then have "(10 * (Q * n + i) + nat c) div 10 = Q * n + i" by simp
  moreover have "(Q * n + i) mod n = i" using assms(1) by simp
  moreover have "(10 * (Q * n + i) + nat c) mod 10 = nat c"
    using c by (simp only: mod_mult_self4 mod_less)
  ultimately show ?thesis by (simp add: player_cell_def)
qed

lemma slot_less:
  fixes c :: int and W n i Q :: nat
  assumes "Q < W" "i < n" "0 \<le> c" "c \<le> 9"
  shows "10 * (Q * n + i) + nat c < W * n * 10"
proof -
  have "Suc Q * n \<le> W * n" using assms(1) by (intro mult_le_mono1) simp
  then have "Q * n + i < W * n" using assms(2) by simp
  moreover have "nat c < 10" using assms(3,4) by simp
  ultimately show ?thesis by simp
qed

section \<open>Counters in C ints\<close>

lemma sint_succ:
  fixes x :: "32 word"
  assumes "sint x < 2 ^ 31 - 1"
  shows "sint (x + 1) = sint x + 1"
proof -
  have lo: "- (2 ^ 31) \<le> sint x" using sint_ge[of x] by simp
  have "sint (x + 1) = signed_take_bit 31 (sint x + sint (1 :: 32 word))"
    using sint_word_ariths(1)[of x 1] by simp
  also have "\<dots> = signed_take_bit 31 (sint x + 1)" by simp
  also have "\<dots> = sint x + 1"
    using lo assms by (intro signed_take_bit_int_eq_self) auto
  finally show ?thesis .
qed

lemma bucket_sum_incr:
  assumes "k < length arr" "sint (arr ! k) < 2 ^ 31 - 1"
  shows "bucket_sum b j (arr[k := arr ! k + 1]) = bucket_sum b j arr + (if b k = j then 1 else 0)"
proof -
  have "bucket_sum b j (arr[k := arr ! k + 1]) =
      (\<Sum>i<length arr. (if b i = j then sint (arr ! i) else 0)
                        + (if k = i then (if b k = j then 1 else 0) else 0))"
    unfolding bucket_sum_def length_list_update
  proof (rule sum.cong)
    fix i assume "i \<in> {..<length arr}"
    then show "(if b i = j then sint (arr[k := arr ! k + 1] ! i) else 0) =
        (if b i = j then sint (arr ! i) else 0) + (if k = i then (if b k = j then 1 else 0) else 0)"
      using assms by (auto simp: nth_list_update sint_succ)
  qed simp
  also have "\<dots> = bucket_sum b j arr + (\<Sum>i<length arr. if k = i then (if b k = j then 1 else 0) else 0)"
    unfolding bucket_sum_def by (rule sum.distrib)
  also have "(\<Sum>i<length arr. if k = i then (if b k = j then 1 else 0) else 0)
               = (if b k = j then 1 else (0::int))"
    using assms(1) by (simp add: sum.delta)
  finally show ?thesis .
qed

lemma bucket_sum_zero: "bucket_sum b j (replicate m 0) = 0"
  unfolding bucket_sum_def by (rule sum.neutral) simp

lemma sum_list_sint_zero: "sum_list (map sint (replicate m (0 :: 32 word))) = 0"
  by (induction m) auto

lemma nonneg_elem_le_sum_list:
  fixes xs :: "int list"
  assumes "\<forall>i<length xs. 0 \<le> xs ! i" "k < length xs"
  shows "xs ! k \<le> sum_list xs"
  using assms
proof (induction xs arbitrary: k)
  case Nil
  then show ?case by simp
next
  case (Cons x xs)
  have x: "0 \<le> x" using Cons.prems(1) by auto
  have xs: "\<forall>i<length xs. 0 \<le> xs ! i" using Cons.prems(1) by auto
  have s: "0 \<le> sum_list xs"
    by (rule sum_list_nonneg) (use xs in \<open>auto simp: in_set_conv_nth\<close>)
  show ?case
  proof (cases k)
    case 0
    then show ?thesis using s by simp
  next
    case (Suc k')
    then have "xs ! k' \<le> sum_list xs" using Cons.IH[OF xs] Cons.prems(2) by simp
    then show ?thesis using Suc x by simp
  qed
qed

lemma sum_list_sint_incr:
  fixes wl :: "32 word list"
  assumes "k < length wl" "sint (wl ! k) < 2 ^ 31 - 1"
  shows "sum_list (map sint (wl[k := wl ! k + 1])) = sum_list (map sint wl) + 1"
proof -
  have "map sint (wl[k := wl ! k + 1]) = (map sint wl)[k := map sint wl ! k + 1]"
    using assms by (simp add: map_update sint_succ)
  then show ?thesis using sum_list_incr[of k "map sint wl"] assms(1) by simp
qed

section \<open>The reduction on arbitrary arrays\<close>

lemma fold_winner_step_bucket:
  assumes "0 < m"
  shows "length (fold (winner_step m) (enumerate 0 arr) (replicate m 0)) = m"
    and "j < m \<Longrightarrow> fold (winner_step m) (enumerate 0 arr) (replicate m 0) ! j
                    = bucket_sum (\<lambda>i. i mod m) j arr"
proof -
  let ?I = "\<lambda>acc :: int list. length acc = m"
  let ?read = "\<lambda>(acc :: int list) j. if j < m then acc ! j else 0"
  let ?res = "fold (winner_step m) (enumerate 0 arr) (replicate m 0)"
  have step: "\<And>i e st j. ?I st \<Longrightarrow> ?I (winner_step m (i, e) st) \<and>
      ?read (winner_step m (i, e) st) j = ?read st j + (if i mod m = j then sint e else 0)"
    using winner_step_ok[OF assms] by simp
  have init: "?I (replicate m 0)" by simp
  have both: "?I ?res \<and>
     ?read ?res j = ?read (replicate m 0) j
        + (\<Sum>i<length arr. if (0 + i) mod m = j then sint (arr ! i) else 0)"
    for j
    by (rule bucket_fold[of ?I "winner_step m" ?read "\<lambda>i. i mod m" "replicate m 0" 0 arr j,
          OF step init])
  show "length ?res = m" using both[of 0] by blast
  show "?res ! j = bucket_sum (\<lambda>i. i mod m) j arr" if "j < m"
    unfolding bucket_sum_def using both[of j] that by simp
qed

lemma combine_winner_list_bucket:
  shows "length (combine_winner_list n arr) = n + 1"
    and "j < n + 1 \<Longrightarrow> combine_winner_list n arr ! j = bucket_sum (\<lambda>i. i mod (n + 1)) j arr"
proof -
  have cw: "combine_winner_list n arr
              = fold (winner_step (n + 1)) (enumerate 0 arr) (replicate (n + 1) 0)"
    unfolding combine_winner_list_def winner_step_def ..
  have pos: "0 < n + 1" by simp
  show "length (combine_winner_list n arr) = n + 1"
    unfolding cw by (rule fold_winner_step_bucket(1)[OF pos])
  show "combine_winner_list n arr ! j = bucket_sum (\<lambda>i. i mod (n + 1)) j arr" if "j < n + 1"
    unfolding cw by (rule fold_winner_step_bucket(2)[OF pos that])
qed

lemma combine_histograms_bucket:
  assumes "0 < n"
  shows "\<exists>combined. combine_histograms n arr = Inr combined \<and> rows10 n combined
           \<and> (\<forall>p<n. \<forall>c<10. combined ! p ! c = bucket_sum (player_cell n) (p, c) arr)"
proof -
  let ?init = "replicate n (replicate 10 (0::int))"
  let ?res = "fold (histogram_step n) (enumerate 0 arr) ?init"
  have step: "\<And>i e st j. rows10 n st \<Longrightarrow> rows10 n (histogram_step n (i, e) st) \<and>
      cell n (histogram_step n (i, e) st) j = cell n st j + (if player_cell n i = j then sint e else 0)"
    unfolding player_cell_def by (rule histogram_step_ok[OF assms])
  have init: "rows10 n ?init" by (simp add: rows10_def)
  have both: "rows10 n ?res \<and>
     cell n ?res pc = cell n ?init pc + (\<Sum>i<length arr. if player_cell n (0 + i) = pc then sint (arr ! i) else 0)"
    for pc
    by (rule bucket_fold[of "rows10 n" "histogram_step n" "cell n" "player_cell n" ?init 0 arr pc,
          OF step init])
  have ch: "combine_histograms n arr = Inr ?res"
    using assms unfolding combine_histograms_def histogram_step_def by simp
  have "rows10 n ?res" using both[of "(0, 0)"] by blast
  moreover have "?res ! p ! c = bucket_sum (player_cell n) (p, c) arr" if "p < n" "c < 10" for p c
    using both[of "(p, c)"] that by (simp add: cell_def bucket_sum_def)
  ultimately show ?thesis unfolding ch by blast
qed

section \<open>The parallel run next to the sequential run\<close>

lemma incr_shared_histograms_sim:
  fixes t :: nat
  assumes P: "- int W \<le> P" "P < int W" and t: "int t + 1 < 2 ^ 31"
    and len: "length rh = W * n * 10" and rows: "rows10 n hs"
    and idx: "index + length rs \<le> n"
    and cats: "list_all (\<lambda>r. 0 \<le> fst r \<and> fst r \<le> 9) rs"
    and bnd: "\<forall>i<length rh. 0 \<le> sint (rh ! i) \<and> sint (rh ! i) \<le> int t + 1"
    and fresh: "\<forall>i<length rh. index \<le> fst (player_cell n i) \<longrightarrow> sint (rh ! i) \<le> int t"
    and rel: "\<forall>p<n. \<forall>c<10. hs ! p ! c = bucket_sum (player_cell n) (p, c) rh"
  shows "\<exists>rh' hs'. incr_shared_histograms rh P (int n) index rs = Inr rh'
           \<and> incr_histograms hs index rs = Inr hs'
           \<and> length rh' = W * n * 10 \<and> rows10 n hs'
           \<and> (\<forall>i<length rh'. 0 \<le> sint (rh' ! i) \<and> sint (rh' ! i) \<le> int t + 1)
           \<and> (\<forall>p<n. \<forall>c<10. hs' ! p ! c = bucket_sum (player_cell n) (p, c) rh')"
  using len rows idx cats bnd fresh rel
proof (induction rs arbitrary: rh hs index)
  case Nil
  then show ?case by simp
next
  case (Cons r rs)
  let ?c = "fst r"
  let ?K = "10 * (shard_of W P * n + index) + nat ?c"
  have i: "index < n" using Cons.prems(3) by simp
  have c: "0 \<le> ?c" "?c \<le> 9" using Cons.prems(4) by simp_all
  have c10: "nat ?c < 10" using c by simp
  have res: "py_index (length rh) (histogram_slot P (int n) (int index) ?c) = Some ?K"
    unfolding Cons.prems(1) by (rule resolve_histogram_slot[OF P i c])
  have K: "?K < length rh"
    unfolding Cons.prems(1) by (rule slot_less[OF shard_of_proc(1)[OF P] i c])
  have cellK: "player_cell n ?K = (index, nat ?c)" by (rule histogram_slot_bucket[OF i c])
  have small: "sint (rh ! ?K) \<le> int t" using Cons.prems(6) K cellK by simp
  then have lt: "sint (rh ! ?K) < 2 ^ 31 - 1" using t by simp
  let ?rh1 = "rh[?K := rh ! ?K + 1]"
  have par: "py_incr rh (histogram_slot P (int n) (int index) ?c) = Inr ?rh1"
    using res by (rule py_incr_Some)
  have nth1: "sint (?rh1 ! j) = (if j = ?K then sint (rh ! ?K) + 1 else sint (rh ! j))"
    if "j < length rh" for j
    using that K lt by (simp add: nth_list_update sint_succ)
  have ih: "index < length hs" and row: "length (hs ! index) = 10"
    using Cons.prems(2) i by (simp_all add: rows10_def)
  let ?row1 = "(hs ! index)[nat ?c := hs ! index ! nat ?c + 1]"
  let ?hs1 = "hs[index := ?row1]"
  have "py_index (length (hs ! index)) ?c = Some (nat ?c)"
    unfolding row using c by (simp add: py_index_nonneg)
  then have seq: "py_incr (hs ! index) ?c = Inr ?row1" by (rule py_incr_Some)
  have len1: "length ?rh1 = W * n * 10" using Cons.prems(1) by simp
  have rows1: "rows10 n ?hs1" using Cons.prems(2) row by (simp add: rows10_update)
  have idx1: "Suc index + length rs \<le> n" using Cons.prems(3) by simp
  have cats1: "list_all (\<lambda>r. 0 \<le> fst r \<and> fst r \<le> 9) rs" using Cons.prems(4) by simp
  have bnd1: "\<forall>j<length ?rh1. 0 \<le> sint (?rh1 ! j) \<and> sint (?rh1 ! j) \<le> int t + 1"
  proof (intro allI impI)
    fix j assume "j < length ?rh1"
    then have j: "j < length rh" by simp
    show "0 \<le> sint (?rh1 ! j) \<and> sint (?rh1 ! j) \<le> int t + 1"
      using nth1[OF j] Cons.prems(5) j K small by auto
  qed
  have fresh1: "\<forall>j<length ?rh1. Suc index \<le> fst (player_cell n j) \<longrightarrow> sint (?rh1 ! j) \<le> int t"
  proof (intro allI impI)
    fix j assume "j < length ?rh1" and far: "Suc index \<le> fst (player_cell n j)"
    then have j: "j < length rh" by simp
    have "j \<noteq> ?K" using far cellK by auto
    then show "sint (?rh1 ! j) \<le> int t" using nth1[OF j] Cons.prems(6) j far by simp
  qed
  have rel1: "\<forall>p<n. \<forall>c<10. ?hs1 ! p ! c = bucket_sum (player_cell n) (p, c) ?rh1"
  proof (intro allI impI)
    fix p c' assume p: "p < n" and c': "c' < (10::nat)"
    have "bucket_sum (player_cell n) (p, c') ?rh1
            = bucket_sum (player_cell n) (p, c') rh + (if (index, nat ?c) = (p, c') then 1 else 0)"
      using bucket_sum_incr[OF K lt, of "player_cell n" "(p, c')"] cellK by simp
    moreover have "bucket_sum (player_cell n) (p, c') rh = hs ! p ! c'"
      using Cons.prems(7) p c' by simp
    moreover have "?hs1 ! p ! c' = hs ! p ! c' + (if (index, nat ?c) = (p, c') then 1 else 0)"
      using ih row c10 c' by (auto simp: nth_list_update)
    ultimately show "?hs1 ! p ! c' = bucket_sum (player_cell n) (p, c') ?rh1" by simp
  qed
  from Cons.IH[OF len1 rows1 idx1 cats1 bnd1 fresh1 rel1] par seq ih
  show ?case by simp
qed


lemma shard_tabulate_sim:
  fixes t :: nat
  assumes inv: "sharded W (length hole_cards) t pst sst" and t: "int t + 1 < 2 ^ 31"
    and w: "1 \<le> w" "w \<le> W"
    and wi: "0 \<le> compare_hands X (detect_all X hole_cards board)"
            "compare_hands X (detect_all X hole_cards board) \<le> int (length hole_cards)"
    and cats: "list_all (\<lambda>r. 0 \<le> fst r \<and> fst r \<le> 9) (detect_all X hole_cards board)"
  shows "\<exists>pst' sst'. shard_tabulate X hole_cards (worker_name w) pst board = Inr pst'
           \<and> tabulate X hole_cards sst board = Inr sst'
           \<and> sharded W (length hole_cards) (Suc t) pst' sst'"
proof -
  let ?n = "length hole_cards"
  let ?rs = "detect_all X hole_cards board"
  let ?wi = "compare_hands X ?rs"
  let ?P = "int (w mod 10) - 1"
  obtain wl rh where pst: "pst = (wl, rh)" by (cases pst)
  obtain swl shs where sst: "sst = (swl, shs)" by (cases sst)
  have P: "- int W \<le> ?P" "?P < int W" using worker_proc_id_range[OF w] by simp_all
  from inv have lwl: "length wl = W * (?n + 1)" and lrh: "length rh = W * ?n * 10"
    and lswl: "length swl = ?n + 1" and rows: "rows10 ?n shs"
    and nonneg: "\<forall>i<length wl. 0 \<le> sint (wl ! i)"
    and total: "sum_list (map sint wl) = int t"
    and hb: "\<forall>i<length rh. 0 \<le> sint (rh ! i) \<and> sint (rh ! i) \<le> int t"
    and relw: "\<forall>j<?n + 1. swl ! j = bucket_sum (\<lambda>i. i mod (?n + 1)) j wl"
    and relh: "\<forall>p<?n. \<forall>c<10. shs ! p ! c = bucket_sum (player_cell ?n) (p, c) rh"
    by (simp_all add: sharded_def pst sst shape_def)
  let ?K = "shard_of W ?P * (?n + 1) + nat ?wi"
  have res: "py_index (length wl) (winner_slot ?P (int ?n) ?wi) = Some ?K"
    unfolding lwl by (rule resolve_winner_slot[OF P wi])
  then have K: "?K < length wl" by (rule py_index_less)
  have "sint (wl ! ?K) \<le> sum_list (map sint wl)"
    using nonneg_elem_le_sum_list[of "map sint wl" ?K] nonneg K by simp
  then have lt: "sint (wl ! ?K) < 2 ^ 31 - 1" using total t by simp
  let ?wl1 = "wl[?K := wl ! ?K + 1]"
  have par: "py_incr wl (winner_slot ?P (int ?n) ?wi) = Inr ?wl1" using res by (rule py_incr_Some)
  have wj: "nat ?wi < length swl" using wi lswl by simp
  let ?swl1 = "swl[nat ?wi := swl ! nat ?wi + 1]"
  have "py_index (length swl) ?wi = Some (nat ?wi)" using wi lswl by (simp add: py_index_nonneg)
  then have seq: "py_incr swl ?wi = Inr ?swl1" by (rule py_incr_Some)
  have nonneg1: "\<forall>i<length ?wl1. 0 \<le> sint (?wl1 ! i)"
  proof (intro allI impI)
    fix i assume "i < length ?wl1"
    then have i: "i < length wl" by simp
    show "0 \<le> sint (?wl1 ! i)" using nonneg i K lt by (auto simp: nth_list_update sint_succ)
  qed
  have total1: "sum_list (map sint ?wl1) = int (Suc t)"
    using sum_list_sint_incr[OF K lt] total by simp
  have Kb: "?K mod (?n + 1) = nat ?wi" by (rule winner_slot_bucket[OF wi(2,1)])
  have relw1: "\<forall>j<?n + 1. ?swl1 ! j = bucket_sum (\<lambda>i. i mod (?n + 1)) j ?wl1"
  proof (intro allI impI)
    fix j assume j: "j < ?n + 1"
    have "bucket_sum (\<lambda>i. i mod (?n + 1)) j ?wl1
            = bucket_sum (\<lambda>i. i mod (?n + 1)) j wl + (if nat ?wi = j then 1 else 0)"
      using bucket_sum_incr[OF K lt, of "\<lambda>i. i mod (?n + 1)" j] Kb by simp
    moreover have "?swl1 ! j = swl ! j + (if nat ?wi = j then 1 else 0)"
      using wj by (auto simp: nth_list_update)
    ultimately show "?swl1 ! j = bucket_sum (\<lambda>i. i mod (?n + 1)) j ?wl1"
      using relw j by simp
  qed
  have idx: "0 + length ?rs \<le> ?n" by (simp add: length_detect_all)
  have bnd: "\<forall>i<length rh. 0 \<le> sint (rh ! i) \<and> sint (rh ! i) \<le> int t + 1"
    using hb by auto
  have fresh: "\<forall>i<length rh. 0 \<le> fst (player_cell ?n i) \<longrightarrow> sint (rh ! i) \<le> int t"
    using hb by auto
  from incr_shared_histograms_sim[OF P t lrh rows idx cats bnd fresh relh]
  obtain rh' hs' where
    h: "incr_shared_histograms rh ?P (int ?n) 0 ?rs = Inr rh'"
       "incr_histograms shs 0 ?rs = Inr hs'"
       "length rh' = W * ?n * 10" "rows10 ?n hs'"
       "\<forall>i<length rh'. 0 \<le> sint (rh' ! i) \<and> sint (rh' ! i) \<le> int t + 1"
       "\<forall>p<?n. \<forall>c<10. hs' ! p ! c = bucket_sum (player_cell ?n) (p, c) rh'"
    by blast
  have p': "shard_tabulate X hole_cards (worker_name w) pst board = Inr (?wl1, rh')"
    using par h(1) by (simp add: shard_tabulate_def proc_id_of_worker_name pst Let_def)
  have s': "tabulate X hole_cards sst board = Inr (?swl1, hs')"
    using seq h(2) by (simp add: tabulate_def sst Let_def)
  have l1: "length ?wl1 = W * (?n + 1)" using lwl by simp
  have ls1: "length ?swl1 = ?n + 1" using lswl by simp
  have bound1: "\<forall>i<length rh'. 0 \<le> sint (rh' ! i) \<and> sint (rh' ! i) \<le> int (Suc t)"
    using h(5) by (auto simp: add.commute)
  have "sharded W ?n (Suc t) (?wl1, rh') (?swl1, hs')"
    unfolding sharded_def shape_def fst_conv snd_conv
    by (intro conjI) (fact l1 h(3) ls1 h(4) nonneg1 total1 bound1 relw1 h(6))+
  with p' s' show ?thesis by blast
qed

lemma pool_map_sim:
  fixes t :: nat
  assumes "sharded W (length hole_cards) t pst sst"
    and "int t + int (length boards) < 2 ^ 31"
    and "\<forall>i<length boards. 1 \<le> worker_of (k + i) \<and> worker_of (k + i) \<le> W"
    and "outcomes_in_range X hole_cards given_board boards"
  shows "\<exists>pst' sst'.
      run_trials (\<lambda>st (k, remaining_board).
          u_simulation X given_board hole_cards (worker_name (worker_of k)) st remaining_board)
        pst (enumerate k boards) = Inr pst'
      \<and> run_trials (trial X hole_cards given_board) sst boards = Inr sst'
      \<and> sharded W (length hole_cards) (t + length boards) pst' sst'"
  using assms
proof (induction boards arbitrary: k t pst sst)
  case Nil
  then show ?case by simp
next
  case (Cons b boards)
  let ?board = "make_board given_board b"
  have t: "int t + 1 < 2 ^ 31" using Cons.prems(2) by simp
  have w: "1 \<le> worker_of k" "worker_of k \<le> W" using Cons.prems(3) by auto
  from Cons.prems(4) have
    b: "0 \<le> compare_hands X (detect_all X hole_cards ?board)"
       "compare_hands X (detect_all X hole_cards ?board) \<le> int (length hole_cards)"
       "list_all (\<lambda>r. 0 \<le> fst r \<and> fst r \<le> 9) (detect_all X hole_cards ?board)"
    and rest: "outcomes_in_range X hole_cards given_board boards"
    by (simp_all add: outcomes_in_range_Cons)
  from shard_tabulate_sim[OF Cons.prems(1) t w b] obtain pst1 sst1 where
    one: "shard_tabulate X hole_cards (worker_name (worker_of k)) pst ?board = Inr pst1"
         "tabulate X hole_cards sst ?board = Inr sst1"
         "sharded W (length hole_cards) (Suc t) pst1 sst1"
    by blast
  have t1: "int (Suc t) + int (length boards) < 2 ^ 31" using Cons.prems(2) by simp
  have w1: "\<forall>i<length boards. 1 \<le> worker_of (Suc k + i) \<and> worker_of (Suc k + i) \<le> W"
  proof (intro allI impI)
    fix i assume "i < length boards"
    then have "Suc i < length (b # boards)" by simp
    from Cons.prems(3)[rule_format, OF this]
    show "1 \<le> worker_of (Suc k + i) \<and> worker_of (Suc k + i) \<le> W" by simp
  qed
  from Cons.IH[OF one(3) t1 w1 rest] one(1,2)
  show ?case by (simp add: u_simulation_def trial_def)
qed

lemma sharded_init:
  "sharded W n 0 (replicate (W * (n + 1)) 0, replicate (W * n * 10) 0)
     (replicate (n + 1) 0, replicate n (replicate 10 0))"
proof -
  have a: "\<forall>i<length (replicate (W * (n + 1)) (0 :: 32 word)).
             0 \<le> sint (replicate (W * (n + 1)) (0 :: 32 word) ! i)" by simp
  have b: "\<forall>i<length (replicate (W * n * 10) (0 :: 32 word)).
             0 \<le> sint (replicate (W * n * 10) (0 :: 32 word) ! i)
             \<and> sint (replicate (W * n * 10) (0 :: 32 word) ! i) \<le> int 0" by simp
  have c: "\<forall>j<n + 1. replicate (n + 1) (0 :: int) ! j
             = bucket_sum (\<lambda>i. i mod (n + 1)) j (replicate (W * (n + 1)) 0)"
  proof (intro allI impI)
    fix j assume "j < n + 1"
    then have "replicate (n + 1) (0 :: int) ! j = 0" by (rule nth_replicate)
    then show "replicate (n + 1) (0 :: int) ! j
             = bucket_sum (\<lambda>i. i mod (n + 1)) j (replicate (W * (n + 1)) 0)"
      by (simp only: bucket_sum_zero)
  qed
  have d: "\<forall>p<n. \<forall>c<10. replicate n (replicate 10 (0 :: int)) ! p ! c
             = bucket_sum (player_cell n) (p, c) (replicate (W * n * 10) 0)"
    by (simp add: bucket_sum_zero)
  have e: "sum_list (map sint (replicate (W * (n + 1)) (0 :: 32 word))) = int 0"
    using sum_list_sint_zero[of "W * (n + 1)"] by simp
  show ?thesis
    unfolding sharded_def fst_conv snd_conv
    by (intro conjI) (fact a b c d e shape_init length_replicate)+
qed

lemma parallel_next_to_sequential:
  assumes "\<forall>i<length boards. 1 \<le> worker_of i \<and> worker_of i \<le> W"
    and "outcomes_in_range X hole_cards given_board boards"
    and "length boards < 2 ^ 31"
    and "exclusive_shards worker_of (length boards)"
  shows "\<exists>pst sst. u_parallel_tally X W worker_of hole_cards given_board boards = Inr pst
           \<and> u_evaluate_tally X hole_cards given_board boards = Inr sst
           \<and> sharded W (length hole_cards) (length boards) pst sst"
proof -
  have t: "int 0 + int (length boards) < 2 ^ 31" using assms(3) by simp
  have w: "\<forall>i<length boards. 1 \<le> worker_of (0 + i) \<and> worker_of (0 + i) \<le> W"
    using assms(1) by simp
  from pool_map_sim[OF sharded_init t w assms(2)]
  show ?thesis
    unfolding u_parallel_tally_def u_evaluate_tally_def pool_map_def Let_def by simp
qed

section \<open>What \<^verbatim>\<open>evaluate\<close> returns\<close>

lemma sharded_combined:
  assumes "sharded W n t (wl, rh) (swl, shs)"
  shows "combine_winner_list n wl = swl" and "combine_histograms n rh = Inr shs"
proof -
  from assms have lswl: "length swl = n + 1" and rows: "rows10 n shs"
    and lrh: "length rh = W * n * 10"
    and relw: "\<forall>j<n + 1. swl ! j = bucket_sum (\<lambda>i. i mod (n + 1)) j wl"
    and relh: "\<forall>p<n. \<forall>c<10. shs ! p ! c = bucket_sum (player_cell n) (p, c) rh"
    by (simp_all add: sharded_def shape_def)
  show "combine_winner_list n wl = swl"
  proof (rule nth_equalityI)
    show "length (combine_winner_list n wl) = length swl"
      using combine_winner_list_bucket(1)[of n wl] lswl by simp
    fix j assume "j < length (combine_winner_list n wl)"
    then have j: "j < n + 1" using combine_winner_list_bucket(1)[of n wl] by simp
    show "combine_winner_list n wl ! j = swl ! j"
      using combine_winner_list_bucket(2)[OF j, of wl] relw j by simp
  qed
  show "combine_histograms n rh = Inr shs"
  proof (cases "n = 0")
    case True
    then have "rh = []" "shs = []" using lrh rows by (simp_all add: rows10_def)
    then show ?thesis using True by (simp add: combine_histograms_def)
  next
    case False
    then have "0 < n" by simp
    from combine_histograms_bucket[OF this, of rh] obtain combined where
      c: "combine_histograms n rh = Inr combined" "rows10 n combined"
         "\<forall>p<n. \<forall>c<10. combined ! p ! c = bucket_sum (player_cell n) (p, c) rh"
      by blast
    have "combined = shs"
      by (rule rows10_eqI[OF c(2) rows]) (use c(3) relh in simp)
    with c(1) show ?thesis by simp
  qed
qed

lemma evaluate_sequential:
  "evaluate X num_processes worker_of hole_cards adversary_hole_cards given_board False
       num_iterations =
     (case u_evaluate_tally X (parsed_hole_cards X hole_cards adversary_hole_cards)
             (parsed_board X given_board)
             (evaluate_boards X hole_cards adversary_hole_cards given_board num_iterations) of
        Inl e \<Rightarrow> Inl e
      | Inr (winner_list, result_histograms) \<Rightarrow> probabilities winner_list)"
  by (simp add: evaluate_def u_evaluate_def evaluate_boards_def parsed_hole_cards_def
      parsed_board_def Let_def)

lemma evaluate_parallel:
  "evaluate X num_processes worker_of hole_cards adversary_hole_cards given_board True
       num_iterations =
     (case u_parallel_tally X num_processes worker_of
             (parsed_hole_cards X hole_cards adversary_hole_cards) (parsed_board X given_board)
             (evaluate_boards X hole_cards adversary_hole_cards given_board num_iterations) of
        Inl e \<Rightarrow> Inl e
      | Inr (winner_list, result_histograms) \<Rightarrow>
          (case combine_histograms (length (parsed_hole_cards X hole_cards adversary_hole_cards))
                  result_histograms of
             Inl e \<Rightarrow> Inl e
           | Inr combined_histograms \<Rightarrow> probabilities (map sint winner_list)))"
  unfolding evaluate_def u_parallel_evaluate_def evaluate_boards_def parsed_hole_cards_def
      parsed_board_def Let_def by simp

lemma length_parsed_hole_cards [simp]:
  "length (parsed_hole_cards X hole_cards adversary_hole_cards) = 2"
  by (simp add: parsed_hole_cards_def)

lemma combine_histograms_players: "0 < n \<Longrightarrow> \<exists>combined. combine_histograms n arr = Inr combined"
  by (simp add: combine_histograms_def)

lemma probabilities_Inr:
  assumes "3 \<le> length winner_list" "sum_list winner_list \<noteq> 0"
  shows "probabilities winner_list =
     Inr (of_int (winner_list ! 1) / of_int (sum_list winner_list),
          of_int (winner_list ! 2) / of_int (sum_list winner_list))"
  using assms by (simp add: probabilities_def Let_def)

lemma probabilities_zero:
  assumes "2 \<le> length winner_list" "sum_list winner_list = 0"
  shows "probabilities winner_list = Inl ZeroDivisionError"
  using assms by (simp add: probabilities_def Let_def)

text \<open>The sequential path on a stream the oracle keeps to its interface on.\<close>

lemma evaluate_sequential_result:
  assumes "outcomes_in_range X (parsed_hole_cards X hole_cards adversary_hole_cards)
             (parsed_board X given_board)
             (evaluate_boards X hole_cards adversary_hole_cards given_board num_iterations)"
  shows "\<exists>wl hs. u_evaluate_tally X (parsed_hole_cards X hole_cards adversary_hole_cards)
             (parsed_board X given_board)
             (evaluate_boards X hole_cards adversary_hole_cards given_board num_iterations)
               = Inr (wl, hs)
           \<and> length wl = 3
           \<and> sum_list wl = int (length (evaluate_boards X hole_cards adversary_hole_cards
                                          given_board num_iterations))
           \<and> evaluate X num_processes worker_of hole_cards adversary_hole_cards given_board False
               num_iterations = probabilities wl"
proof -
  from u_evaluate_tally_total[OF assms] obtain wl hs where
    t: "u_evaluate_tally X (parsed_hole_cards X hole_cards adversary_hole_cards)
             (parsed_board X given_board)
             (evaluate_boards X hole_cards adversary_hole_cards given_board num_iterations)
               = Inr (wl, hs)"
    and s: "shape 2 (wl, hs)" by auto
  from s have "length wl = 3" by (simp add: shape_def)
  moreover note u_evaluate_tally_sum[OF t]
  moreover have "evaluate X num_processes worker_of hole_cards adversary_hole_cards given_board
      False num_iterations = probabilities wl"
    by (simp add: evaluate_sequential t)
  ultimately show ?thesis using t by blast
qed

text \<open>The parallel path, under the same condition and a schedule of workers 1..W.\<close>

lemma evaluate_parallel_result:
  assumes "outcomes_in_range X (parsed_hole_cards X hole_cards adversary_hole_cards)
             (parsed_board X given_board)
             (evaluate_boards X hole_cards adversary_hole_cards given_board num_iterations)"
    and "\<forall>i<length (evaluate_boards X hole_cards adversary_hole_cards given_board num_iterations).
           1 \<le> worker_of i \<and> worker_of i \<le> num_processes"
    and "length (evaluate_boards X hole_cards adversary_hole_cards given_board num_iterations)
           < 2 ^ 31"
    and "exclusive_shards worker_of
           (length (evaluate_boards X hole_cards adversary_hole_cards given_board num_iterations))"
  shows "\<exists>wl rh. u_parallel_tally X num_processes worker_of
             (parsed_hole_cards X hole_cards adversary_hole_cards) (parsed_board X given_board)
             (evaluate_boards X hole_cards adversary_hole_cards given_board num_iterations)
               = Inr (wl, rh)
           \<and> length wl = num_processes * 3
           \<and> (\<forall>i<length wl. 0 \<le> sint (wl ! i))
           \<and> sum_list (map sint wl) = int (length (evaluate_boards X hole_cards
                                          adversary_hole_cards given_board num_iterations))
           \<and> evaluate X num_processes worker_of hole_cards adversary_hole_cards given_board True
               num_iterations = probabilities (map sint wl)"
proof -
  let ?hcs = "parsed_hole_cards X hole_cards adversary_hole_cards"
  let ?bs = "evaluate_boards X hole_cards adversary_hole_cards given_board num_iterations"
  from parallel_next_to_sequential[OF assms(2,1,3,4)] obtain pst sst where
    t: "u_parallel_tally X num_processes worker_of ?hcs (parsed_board X given_board) ?bs = Inr pst"
    and s: "sharded num_processes (length ?hcs) (length ?bs) pst sst" by blast
  obtain wl rh where pst: "pst = (wl, rh)" by (cases pst)
  from s have l: "length wl = num_processes * 3"
    and nn: "\<forall>i<length wl. 0 \<le> sint (wl ! i)"
    and sum: "sum_list (map sint wl) = int (length ?bs)"
    by (simp_all add: sharded_def pst)
  obtain combined where "combine_histograms (length ?hcs) rh = Inr combined"
    using combine_histograms_players[of "length ?hcs" rh] by auto
  then have "evaluate X num_processes worker_of hole_cards adversary_hole_cards given_board True
      num_iterations = probabilities (map sint wl)"
    using t by (simp add: evaluate_parallel pst)
  with t l nn sum show ?thesis unfolding pst by blast
qed

section \<open>The two paths of \<^verbatim>\<open>evaluate\<close> compared\<close>

text \<open>
  C1. On the same exhaustive stream the two reducers count the same combined tally, but
  the two paths of \<^verbatim>\<open>evaluate\<close> do not return the same pair: lines 187-188 divide
  \<^verbatim>\<open>winner_list[1]\<close> and \<^verbatim>\<open>winner_list[2]\<close> of the shared array, the counters of the
  first shard, not those of \<^verbatim>\<open>combined_winner_list\<close>. Here a board of four cards
  leaves 44 completions, two workers take them in turn, and the first player wins every
  trial: the sequential path returns \<open>(1, 0)\<close>, the parallel path \<open>(1/2, 0)\<close>.
\<close>

theorem parallel_path_divides_first_shard:
  "(case u_evaluate_tally example_holdem
           (parsed_hole_cards example_holdem [''As'', ''Ad''] [''Kd'', ''Kc''])
           (parsed_board example_holdem (Some [''2c'', ''3c'', ''4c'', ''5c'']))
           (evaluate_boards example_holdem [''As'', ''Ad''] [''Kd'', ''Kc'']
              (Some [''2c'', ''3c'', ''4c'', ''5c'']) 7) of
      Inl e \<Rightarrow> False
    | Inr (winner_list, result_histograms) \<Rightarrow> winner_list = [0, 44, 0])
   \<and> (case u_parallel_tally example_holdem 2 (\<lambda>k. k mod 2 + 1)
           (parsed_hole_cards example_holdem [''As'', ''Ad''] [''Kd'', ''Kc''])
           (parsed_board example_holdem (Some [''2c'', ''3c'', ''4c'', ''5c'']))
           (evaluate_boards example_holdem [''As'', ''Ad''] [''Kd'', ''Kc'']
              (Some [''2c'', ''3c'', ''4c'', ''5c'']) 7) of
      Inl e \<Rightarrow> False
    | Inr (winner_list, result_histograms) \<Rightarrow>
        combine_winner_list 2 winner_list = [0, 44, 0]
        \<and> map sint winner_list = [0, 22, 0, 0, 22, 0])
   \<and> evaluate example_holdem 2 (\<lambda>k. k mod 2 + 1) [''As'', ''Ad''] [''Kd'', ''Kc'']
        (Some [''2c'', ''3c'', ''4c'', ''5c'']) False 7 = Inr (1, 0)
   \<and> evaluate example_holdem 2 (\<lambda>k. k mod 2 + 1) [''As'', ''Ad''] [''Kd'', ''Kc'']
        (Some [''2c'', ''3c'', ''4c'', ''5c'']) True 7 = Inr (1 / 2, 0)"
  by code_simp

text \<open>
  C2. The shard index is read off the last character of the worker's name. Workers 1 and
  11 both end in 1 and both get index 0: with twelve workers, a trial taken by worker 1
  and a trial taken by worker 11 add to the same win slot (position 1) and to the same
  histogram cells (positions 0 and 10). Worker 10 gets index -1.
\<close>

theorem workers_1_and_11_share_a_shard:
  "proc_id_of (worker_name 1) = Inr 0 \<and> proc_id_of (worker_name 11) = Inr 0
   \<and> proc_id_of (worker_name 10) = Inr (- 1)
   \<and> py_index (12 * (2 + 1)) (winner_slot 0 2 1) = Some 1
   \<and> (case u_parallel_tally example_holdem 12 (\<lambda>k. if k = 0 then 1 else 11)
           [[''As'', ''Ad''], [''Kd'', ''Kc'']] None
           [[''2c'', ''3c'', ''4c'', ''5c'', ''7d''], [''2h'', ''3h'', ''4h'', ''5h'', ''7s'']] of
         Inl e \<Rightarrow> False
       | Inr (winner_list, result_histograms) \<Rightarrow>
           winner_list ! 1 = 2 \<and> result_histograms ! 0 = 2 \<and> result_histograms ! 10 = 2)"
  by code_simp

text \<open>
  C5. On the parallel path the value returned for a player is not that player's wins
  over the trials of the combined tally. With three workers and three sampled boards,
  one each, the first player wins all three trials (combined tally \<open>[0, 3, 0]\<close>) and
  \<^verbatim>\<open>evaluate\<close> returns \<open>1/3\<close>: the wins counted by the first worker over all trials.
\<close>

theorem parallel_probability_is_first_workers_share:
  "(case u_parallel_tally example_holdem 3 (\<lambda>k. k + 1)
           (parsed_hole_cards example_holdem [''As'', ''Ad''] [''Kd'', ''Kc''])
           (parsed_board example_holdem None)
           (evaluate_boards example_holdem [''As'', ''Ad''] [''Kd'', ''Kc''] None 3) of
      Inl e \<Rightarrow> False
    | Inr (winner_list, result_histograms) \<Rightarrow> combine_winner_list 2 winner_list = [0, 3, 0])
   \<and> evaluate example_holdem 3 (\<lambda>k. k + 1) [''As'', ''Ad''] [''Kd'', ''Kc''] None True 3
       = Inr (1 / 3, 0)
   \<and> evaluate example_holdem 3 (\<lambda>k. k + 1) [''As'', ''Ad''] [''Kd'', ''Kc''] None False 3
       = Inr (1, 0)"
  by code_simp

text \<open>
  C3, as the code has it. When the stream is empty both reducers end in the division of
  lines 100-101 and 187-188 with a total of zero: the call raises ZeroDivisionError.
  No other error stands for an empty stream.
\<close>

theorem zero_trials_raise_ZeroDivisionError:
  assumes "evaluate_boards X hole_cards adversary_hole_cards given_board num_iterations = []"
    and "0 < num_processes"
  shows "evaluate X num_processes worker_of hole_cards adversary_hole_cards given_board
           is_parallel num_iterations = Inl ZeroDivisionError"
proof (cases is_parallel)
  case False
  have r: "outcomes_in_range X (parsed_hole_cards X hole_cards adversary_hole_cards)
             (parsed_board X given_board)
             (evaluate_boards X hole_cards adversary_hole_cards given_board num_iterations)"
    unfolding assms(1) by (simp add: outcomes_in_range_def)
  from evaluate_sequential_result[OF r, of num_processes worker_of] obtain wl where
    "length wl = 3"
    "sum_list wl = int (length (evaluate_boards X hole_cards adversary_hole_cards
                                  given_board num_iterations))"
    "evaluate X num_processes worker_of hole_cards adversary_hole_cards given_board False
       num_iterations = probabilities wl"
    by blast
  then show ?thesis using False assms by (simp add: probabilities_zero)
next
  case True
  have r: "outcomes_in_range X (parsed_hole_cards X hole_cards adversary_hole_cards)
             (parsed_board X given_board)
             (evaluate_boards X hole_cards adversary_hole_cards given_board num_iterations)"
    unfolding assms(1) by (simp add: outcomes_in_range_def)
  have w: "\<forall>i<length (evaluate_boards X hole_cards adversary_hole_cards given_board num_iterations).
             1 \<le> worker_of i \<and> worker_of i \<le> num_processes"
    unfolding assms(1) by simp
  have l: "length (evaluate_boards X hole_cards adversary_hole_cards given_board num_iterations)
             < 2 ^ 31"
    unfolding assms(1) by simp
  have x: "exclusive_shards worker_of
             (length (evaluate_boards X hole_cards adversary_hole_cards given_board
                        num_iterations))"
    unfolding assms(1) by (simp add: exclusive_shards_def)
  from evaluate_parallel_result[OF r w l x] obtain wl :: "32 word list" where
    "length wl = num_processes * 3"
    "sum_list (map sint wl) = int (length (evaluate_boards X hole_cards adversary_hole_cards
                                             given_board num_iterations))"
    "evaluate X num_processes worker_of hole_cards adversary_hole_cards given_board True
       num_iterations = probabilities (map sint wl)"
    by blast
  then show ?thesis using True assms by (simp add: probabilities_zero)
qed

theorem zero_trials_raise_ZeroDivisionError_witness:
  "evaluate_boards example_holdem [''As'', ''Ad''] [''Kd'', ''Kc''] None 0 = []
   \<and> evaluate example_holdem 4 (\<lambda>k. k mod 4 + 1) [''As'', ''Ad''] [''Kd'', ''Kc''] None True 0
       = Inl ZeroDivisionError"
proof -
  have e: "evaluate_boards example_holdem [''As'', ''Ad''] [''Kd'', ''Kc''] None 0 = []"
    by code_simp
  have p: "0 < (4 :: nat)" by simp
  from zero_trials_raise_ZeroDivisionError[OF e p] e show ?thesis by simp
qed

theorem zero_trials_counterexample:
  "evaluate example_holdem 1 (\<lambda>k. 1) [''Ah'', ''Ad''] [''2c'', ''2d''] None False 0
     = Inl ZeroDivisionError"
  by code_simp

section \<open>A full board, and inputs that are not checked\<close>

lemma make_board_no_completion: "make_board (Some b) [] = b"
  by (simp add: make_board_def)

lemma tabulate_winner:
  assumes "length wl = length hole_cards + 1" "rows10 (length hole_cards) hs"
    and "0 \<le> compare_hands X (detect_all X hole_cards board)"
    and "compare_hands X (detect_all X hole_cards board) \<le> int (length hole_cards)"
    and "list_all (\<lambda>r. 0 \<le> fst r \<and> fst r \<le> 9) (detect_all X hole_cards board)"
  shows "\<exists>hs'. tabulate X hole_cards (wl, hs) board =
           Inr (wl[nat (compare_hands X (detect_all X hole_cards board)) :=
                     wl ! nat (compare_hands X (detect_all X hole_cards board)) + 1], hs')"
proof -
  let ?w = "compare_hands X (detect_all X hole_cards board)"
  have "py_index (length wl) ?w = Some (nat ?w)"
    using assms(1,3,4) by (simp add: py_index_nonneg)
  then have wl: "py_incr wl ?w = Inr (wl[nat ?w := wl ! nat ?w + 1])"
    by (rule py_incr_Some)
  have "0 + length (detect_all X hole_cards board) \<le> length hole_cards"
    by (simp add: length_detect_all)
  from incr_histograms_total[OF this assms(2,5)]
  obtain hs' where "incr_histograms hs 0 (detect_all X hole_cards board) = Inr hs'" by blast
  with wl show ?thesis by (simp add: tabulate_def Let_def)
qed

lemma evaluate_boards_full_board:
  assumes "length given_board = 5"
    and "generate_exhaustive_boards X = generate_exhaustive_boards_spec"
  shows "evaluate_boards X hole_cards adversary_hole_cards (Some given_board) num_iterations = [[]]"
  using assms
  by (simp add: evaluate_boards_def generate_boards_def select_mode_def board_length_def
      generate_exhaustive_boards_spec_def Let_def)

text \<open>
  The sequential path on a board of five cards, with the exhaustive generator of the
  specification: the stream is the one empty completion, and the pair returned is that
  of the winner the oracle names for the given board.
\<close>

lemma full_board_sequential_pair:
  assumes "length given_board = 5"
    and "generate_exhaustive_boards X = generate_exhaustive_boards_spec"
    and "outcomes_in_range X (parsed_hole_cards X hole_cards adversary_hole_cards)
           (parsed_board X (Some given_board)) [[]]"
  shows "evaluate X num_processes worker_of hole_cards adversary_hole_cards
            (Some given_board) False num_iterations =
          (let winner_index =
                 compare_hands X (detect_all X (parsed_hole_cards X hole_cards adversary_hole_cards)
                                    (map (Card X) given_board))
           in Inr (if winner_index = 1 then 1 else 0, if winner_index = 2 then 1 else 0))"
proof -
  let ?hcs = "parsed_hole_cards X hole_cards adversary_hole_cards"
  let ?gb = "parsed_board X (Some given_board)"
  let ?bs = "evaluate_boards X hole_cards adversary_hole_cards (Some given_board) num_iterations"
  let ?w = "compare_hands X (detect_all X ?hcs (map (Card X) given_board))"
  have bs: "?bs = [[]]" by (rule evaluate_boards_full_board[OF assms(1,2)])
  have gb: "?gb = Some (map (Card X) given_board)" by (simp add: parsed_board_def)
  from assms(3) have w: "0 \<le> ?w" "?w \<le> 2"
    and cats: "list_all (\<lambda>r. 0 \<le> fst r \<and> fst r \<le> 9)
                 (detect_all X ?hcs (map (Card X) given_board))"
    by (simp_all add: outcomes_in_range_Cons gb make_board_no_completion)
  let ?wl = "(replicate 3 (0::int))[nat ?w := replicate 3 (0::int) ! nat ?w + 1]"
  have init: "rows10 (length ?hcs) (replicate 2 (replicate 10 (0::int)))"
    by (simp add: rows10_def)
  have l3: "length (replicate 3 (0::int)) = length ?hcs + 1" by simp
  from tabulate_winner[OF l3 init _ _ cats] w obtain hs' where
    "tabulate X ?hcs (replicate 3 0, replicate 2 (replicate 10 0)) (map (Card X) given_board)
       = Inr (?wl, hs')"
    by auto
  then have t: "u_evaluate_tally X ?hcs ?gb ?bs = Inr (?wl, hs')"
    unfolding bs gb
    by (simp add: u_evaluate_tally_def trial_def make_board_no_completion Let_def
        numeral_3_eq_3 numeral_2_eq_2)
  have "nat ?w = 0 \<or> nat ?w = 1 \<or> nat ?w = 2" using w by auto
  then have "probabilities ?wl = Inr (if ?w = 1 then 1 else 0, if ?w = 2 then 1 else 0)"
    using w by (auto simp: probabilities_def Let_def numeral_3_eq_3)
  then show ?thesis by (simp add: evaluate_sequential t Let_def)
qed

text \<open>
  C9. With a board of five cards the stream is the one empty completion, and the
  sequential path returns the pair of that one trial: here the adversary's aces beat the
  kings and the call returns \<open>(0, 1)\<close>. The parallel path runs the same trial (the
  combined tally is \<open>[0, 0, 1]\<close>), but lines 187-188 return the counters of the first
  shard: with four workers the pair is \<open>(0, 1)\<close> when worker 1 takes the board and
  \<open>(0, 0)\<close> when worker 3 takes it, so the pair of one and the same call depends on the
  schedule and does not show the win. When the board goes to a worker numbered 5 (a
  later pool of the same process numbers its workers on from 5) line 122 writes past the
  end of the shared array and the call raises IndexError.
\<close>

theorem full_board_parallel_pair_depends_on_worker:
  "evaluate_boards example_holdem [''Kd'', ''Kc''] [''As'', ''Ad'']
      (Some [''2c'', ''3d'', ''4h'', ''7s'', ''9s'']) 1000000 = [[]]
   \<and> evaluate example_holdem 4 (\<lambda>k. 1) [''Kd'', ''Kc''] [''As'', ''Ad'']
        (Some [''2c'', ''3d'', ''4h'', ''7s'', ''9s'']) False 1000000 = Inr (0, 1)
   \<and> evaluate example_holdem 4 (\<lambda>k. 1) [''Kd'', ''Kc''] [''As'', ''Ad'']
        (Some [''2c'', ''3d'', ''4h'', ''7s'', ''9s'']) True 1000000 = Inr (0, 1)
   \<and> (case u_parallel_tally example_holdem 4 (\<lambda>k. 3)
           (parsed_hole_cards example_holdem [''Kd'', ''Kc''] [''As'', ''Ad''])
           (parsed_board example_holdem (Some [''2c'', ''3d'', ''4h'', ''7s'', ''9s'']))
           (evaluate_boards example_holdem [''Kd'', ''Kc''] [''As'', ''Ad'']
              (Some [''2c'', ''3d'', ''4h'', ''7s'', ''9s'']) 1000000) of
         Inl e \<Rightarrow> False
       | Inr (winner_list, result_histograms) \<Rightarrow>
           combine_winner_list 2 winner_list = [0, 0, 1]
           \<and> map sint winner_list = [0, 0, 0, 0, 0, 0, 0, 0, 1, 0, 0, 0])
   \<and> evaluate example_holdem 4 (\<lambda>k. 3) [''Kd'', ''Kc''] [''As'', ''Ad'']
        (Some [''2c'', ''3d'', ''4h'', ''7s'', ''9s'']) True 1000000 = Inr (0, 0)
   \<and> evaluate example_holdem 4 (\<lambda>k. 5) [''Kd'', ''Kc''] [''As'', ''Ad'']
        (Some [''2c'', ''3d'', ''4h'', ''7s'', ''9s'']) True 1000000 = Inl IndexError"
  by code_simp

text \<open>
  C6, as the code has it. \<^verbatim>\<open>evaluate\<close> checks nothing: it has no test for a repeated
  card or for the number of cards, and no error of its own. Whatever the hole cards and
  the board are, the cards go to \<^verbatim>\<open>Card\<close>, to \<^verbatim>\<open>generate_deck\<close> and to the chosen
  reducer. When the stream these return is not empty and the oracle keeps to its
  interface on it, the sequential call runs every trial (the counters add up to the
  number \<open>T\<close> of boards) and returns \<^verbatim>\<open>winner_list[1]\<close> and \<^verbatim>\<open>winner_list[2]\<close> over
  \<open>T\<close>. The parallel call does so with the shared \<^verbatim>\<open>winner_list\<close> when the boards are
  taken by workers 1..W with exclusive shards and are fewer than \<open>2^31\<close>.
\<close>

theorem evaluate_checks_no_input:
  assumes "evaluate_boards X hole_cards adversary_hole_cards given_board num_iterations \<noteq> []"
    and "outcomes_in_range X (parsed_hole_cards X hole_cards adversary_hole_cards)
           (parsed_board X given_board)
           (evaluate_boards X hole_cards adversary_hole_cards given_board num_iterations)"
    and "is_parallel \<longrightarrow>
           (\<forall>i<length (evaluate_boards X hole_cards adversary_hole_cards given_board
                         num_iterations). 1 \<le> worker_of i \<and> worker_of i \<le> num_processes)
           \<and> exclusive_shards worker_of
               (length (evaluate_boards X hole_cards adversary_hole_cards given_board
                          num_iterations))
           \<and> length (evaluate_boards X hole_cards adversary_hole_cards given_board
                       num_iterations) < 2 ^ 31"
  shows "if is_parallel
     then \<exists>winner_list result_histograms.
        u_parallel_tally X num_processes worker_of
           (parsed_hole_cards X hole_cards adversary_hole_cards) (parsed_board X given_board)
           (evaluate_boards X hole_cards adversary_hole_cards given_board num_iterations)
          = Inr (winner_list, result_histograms)
        \<and> sum_list (map sint winner_list)
            = int (length (evaluate_boards X hole_cards adversary_hole_cards given_board
                             num_iterations))
        \<and> evaluate X num_processes worker_of hole_cards adversary_hole_cards given_board True
            num_iterations
            = Inr (of_int (sint (winner_list ! 1))
                     / of_nat (length (evaluate_boards X hole_cards adversary_hole_cards
                                         given_board num_iterations)),
                   of_int (sint (winner_list ! 2))
                     / of_nat (length (evaluate_boards X hole_cards adversary_hole_cards
                                         given_board num_iterations)))
     else \<exists>winner_list result_histograms.
        u_evaluate_tally X (parsed_hole_cards X hole_cards adversary_hole_cards)
           (parsed_board X given_board)
           (evaluate_boards X hole_cards adversary_hole_cards given_board num_iterations)
          = Inr (winner_list, result_histograms)
        \<and> sum_list winner_list
            = int (length (evaluate_boards X hole_cards adversary_hole_cards given_board
                             num_iterations))
        \<and> evaluate X num_processes worker_of hole_cards adversary_hole_cards given_board False
            num_iterations
            = Inr (of_int (winner_list ! 1)
                     / of_nat (length (evaluate_boards X hole_cards adversary_hole_cards
                                         given_board num_iterations)),
                   of_int (winner_list ! 2)
                     / of_nat (length (evaluate_boards X hole_cards adversary_hole_cards
                                         given_board num_iterations)))"
proof (cases is_parallel)
  case False
  let ?bs = "evaluate_boards X hole_cards adversary_hole_cards given_board num_iterations"
  from evaluate_sequential_result[OF assms(2), of num_processes worker_of] obtain wl hs where
    t: "u_evaluate_tally X (parsed_hole_cards X hole_cards adversary_hole_cards)
         (parsed_board X given_board) ?bs = Inr (wl, hs)"
    and l: "length wl = 3" and s: "sum_list wl = int (length ?bs)"
    and e: "evaluate X num_processes worker_of hole_cards adversary_hole_cards given_board False
       num_iterations = probabilities wl"
    by blast
  have "sum_list wl \<noteq> 0" using s assms(1) by simp
  then have "probabilities wl = Inr (of_int (wl ! 1) / of_int (sum_list wl),
                                      of_int (wl ! 2) / of_int (sum_list wl))"
    using l by (simp add: probabilities_Inr)
  then have "evaluate X num_processes worker_of hole_cards adversary_hole_cards given_board False
       num_iterations = Inr (of_int (wl ! 1) / of_nat (length ?bs),
                             of_int (wl ! 2) / of_nat (length ?bs))"
    using e s by simp
  with t s False show ?thesis by auto
next
  case True
  let ?bs = "evaluate_boards X hole_cards adversary_hole_cards given_board num_iterations"
  have ws: "\<forall>i<length ?bs. 1 \<le> worker_of i \<and> worker_of i \<le> num_processes"
    and x: "exclusive_shards worker_of (length ?bs)"
    and l: "length ?bs < 2 ^ 31" using assms(3) True by auto
  from evaluate_parallel_result[OF assms(2) ws l x] obtain wl rh :: "32 word list" where
    t: "u_parallel_tally X num_processes worker_of
          (parsed_hole_cards X hole_cards adversary_hole_cards) (parsed_board X given_board) ?bs
          = Inr (wl, rh)"
    and len: "length wl = num_processes * 3"
    and sum: "sum_list (map sint wl) = int (length ?bs)"
    and ev: "evaluate X num_processes worker_of hole_cards adversary_hole_cards given_board True
               num_iterations = probabilities (map sint wl)"
    by blast
  have "0 < length ?bs" using assms(1) by simp
  with ws have "1 \<le> num_processes" by (meson le_trans)
  then have l3: "3 \<le> length (map sint wl)" using len by simp
  have nz: "sum_list (map sint wl) \<noteq> 0" using sum assms(1) by simp
  have n1: "map sint wl ! 1 = sint (wl ! 1)" and n2: "map sint wl ! 2 = sint (wl ! 2)"
    using l3 by simp_all
  have "evaluate X num_processes worker_of hole_cards adversary_hole_cards given_board True
       num_iterations = Inr (of_int (sint (wl ! 1)) / of_nat (length ?bs),
                             of_int (sint (wl ! 2)) / of_nat (length ?bs))"
    unfolding ev probabilities_Inr[OF l3 nz] n1 n2 sum by simp
  with t sum True show ?thesis by auto
qed

theorem evaluate_checks_no_input_witness:
  "evaluate_boards example_holdem [''As''] [''Kd'', ''Jc'', ''9h'']
     (Some [''2c'', ''3d'', ''4h'', ''7s'']) 5 \<noteq> []
   \<and> outcomes_in_range example_holdem
        (parsed_hole_cards example_holdem [''As''] [''Kd'', ''Jc'', ''9h''])
        (parsed_board example_holdem (Some [''2c'', ''3d'', ''4h'', ''7s'']))
        (evaluate_boards example_holdem [''As''] [''Kd'', ''Jc'', ''9h'']
           (Some [''2c'', ''3d'', ''4h'', ''7s'']) 5)
   \<and> exclusive_shards (\<lambda>k. k mod 2 + 1)
        (length (evaluate_boards example_holdem [''As''] [''Kd'', ''Jc'', ''9h'']
                   (Some [''2c'', ''3d'', ''4h'', ''7s'']) 5))
   \<and> (\<exists>winner_list result_histograms.
        u_parallel_tally example_holdem 2 (\<lambda>k. k mod 2 + 1)
           (parsed_hole_cards example_holdem [''As''] [''Kd'', ''Jc'', ''9h''])
           (parsed_board example_holdem (Some [''2c'', ''3d'', ''4h'', ''7s'']))
           (evaluate_boards example_holdem [''As''] [''Kd'', ''Jc'', ''9h'']
              (Some [''2c'', ''3d'', ''4h'', ''7s'']) 5)
          = Inr (winner_list, result_histograms)
        \<and> sum_list (map sint winner_list) = 44
        \<and> evaluate example_holdem 2 (\<lambda>k. k mod 2 + 1) [''As''] [''Kd'', ''Jc'', ''9h'']
            (Some [''2c'', ''3d'', ''4h'', ''7s'']) True 5
            = Inr (of_int (sint (winner_list ! 1)) / 44, of_int (sint (winner_list ! 2)) / 44))"
proof -
  let ?hc = "[''As'']" and ?adv = "[''Kd'', ''Jc'', ''9h'']"
  let ?gb = "Some [''2c'', ''3d'', ''4h'', ''7s'']"
  let ?bs = "evaluate_boards example_holdem ?hc ?adv ?gb 5"
  have n: "length ?bs = 44" by code_simp
  have a: "?bs \<noteq> []" using n by auto
  have b: "outcomes_in_range example_holdem (parsed_hole_cards example_holdem ?hc ?adv)
        (parsed_board example_holdem ?gb) ?bs"
    by code_simp
  have x: "exclusive_shards (\<lambda>k. k mod 2 + 1) (length ?bs)"
    unfolding exclusive_shards_def
  proof (intro allI impI)
    fix i j :: nat
    assume "(i mod 2 + 1) mod 10 = (j mod 2 + 1) mod 10"
    moreover have "i mod 2 + 1 < 10" "j mod 2 + 1 < 10" by simp_all
    ultimately show "i mod 2 + 1 = j mod 2 + 1" by simp
  qed
  have w: "\<forall>i<length ?bs. 1 \<le> (\<lambda>k. k mod 2 + 1) i \<and> (\<lambda>k. k mod 2 + 1) i \<le> (2 :: nat)"
  proof (intro allI impI)
    fix i :: nat
    have "i mod 2 < 2" by simp
    then show "1 \<le> (\<lambda>k. k mod 2 + 1) i \<and> (\<lambda>k. k mod 2 + 1) i \<le> (2 :: nat)" by simp
  qed
  have c: "True \<longrightarrow>
      (\<forall>i<length ?bs. 1 \<le> (\<lambda>k. k mod 2 + 1) i \<and> (\<lambda>k. k mod 2 + 1) i \<le> (2 :: nat))
      \<and> exclusive_shards (\<lambda>k. k mod 2 + 1) (length ?bs)
      \<and> length ?bs < 2 ^ 31"
    using w x n by simp
  from evaluate_checks_no_input[OF a b c] a b x show ?thesis unfolding n by simp
qed

theorem illegal_card_counts_not_rejected:
  "(case u_evaluate_tally example_holdem
           (parsed_hole_cards example_holdem [''As'', ''Kd'', ''Qc''] [''Kc'', ''Jd''])
           (parsed_board example_holdem (Some [''2c'', ''3d'', ''4h'', ''7s'', ''9s'']))
           (evaluate_boards example_holdem [''As'', ''Kd'', ''Qc''] [''Kc'', ''Jd'']
              (Some [''2c'', ''3d'', ''4h'', ''7s'', ''9s'']) 1000000) of
      Inl e \<Rightarrow> False
    | Inr (winner_list, result_histograms) \<Rightarrow> winner_list = [0, 1, 0])
   \<and> evaluate example_holdem 1 (\<lambda>k. 1) [''As'', ''Kd'', ''Qc''] [''Kc'', ''Jd'']
       (Some [''2c'', ''3d'', ''4h'', ''7s'', ''9s'']) False 1000000 = Inr (1, 0)
   \<and> evaluate example_holdem 1 (\<lambda>k. 1) [''As'', ''Kd'', ''Qc''] [''Kc'', ''Jd'']
       (Some [''2c'', ''3d'', ''4h'', ''7s'', ''9s'']) True 1000000 = Inr (1, 0)
   \<and> evaluate example_holdem 1 (\<lambda>k. 1) [''As'', ''Kd'', ''Qc''] [''Kc'']
       (Some [''2c'', ''3d'', ''4h'', ''7s'', ''9s'']) False 1000000 = Inr (1, 0)"
  by code_simp

section \<open>The choice of the trial source\<close>

lemma combinations_member:
  "distinct xs \<Longrightarrow> c \<in> set (combinations xs r) \<Longrightarrow> length c = r \<and> distinct c \<and> set c \<subseteq> set xs"
proof (induction xs r arbitrary: c rule: combinations.induct)
  case (1 xs)
  then show ?case by simp
next
  case (2 r)
  then show ?case by simp
next
  case (3 x xs r)
  from "3.prems"(2) consider c' where "c = x # c'" "c' \<in> set (combinations xs r)"
    | "c \<in> set (combinations xs (Suc r))" by auto
  then show ?case
  proof cases
    case 1
    with "3.IH"(1)[of c'] "3.prems"(1) show ?thesis by auto
  next
    case 2
    with "3.IH"(2)[of c] "3.prems"(1) show ?thesis by auto
  qed
qed

lemma combinations_complete:
  "A \<subseteq> set xs \<Longrightarrow> card A = r \<Longrightarrow> \<exists>c\<in>set (combinations xs r). set c = A"
proof (induction xs r arbitrary: A rule: combinations.induct)
  case (1 xs)
  have "finite A" using "1.prems"(1) by (rule finite_subset) simp
  with "1.prems"(2) have "A = {}" by simp
  then show ?case by simp
next
  case (2 r)
  then show ?case by simp
next
  case (3 x xs r)
  have fin: "finite A" using "3.prems"(1) by (rule finite_subset) simp
  show ?case
  proof (cases "x \<in> A")
    case True
    have "A - {x} \<subseteq> set xs" using "3.prems"(1) by auto
    moreover have "card (A - {x}) = r" using "3.prems"(2) True fin by simp
    ultimately obtain c where "c \<in> set (combinations xs r)" "set c = A - {x}"
      using "3.IH"(1)[of "A - {x}"] by blast
    then have "x # c \<in> set (combinations (x # xs) (Suc r))" "set (x # c) = A"
      using True by auto
    then show ?thesis by blast
  next
    case False
    then have "A \<subseteq> set xs" using "3.prems"(1) by auto
    then obtain c where "c \<in> set (combinations xs (Suc r))" "set c = A"
      using "3.IH"(2)[of A] "3.prems"(2) by blast
    then show ?thesis by auto
  qed
qed

lemma combinations_distinct:
  "distinct xs \<Longrightarrow> distinct (map set (combinations xs r))"
proof (induction xs r rule: combinations.induct)
  case (1 xs)
  then show ?case by simp
next
  case (2 r)
  then show ?case by simp
next
  case (3 x xs r)
  have dx: "distinct xs" and nx: "x \<notin> set xs" using "3.prems" by simp_all
  have sub: "\<And>c r. c \<in> set (combinations xs r) \<Longrightarrow> x \<notin> set c"
    using combinations_member[OF dx] nx by blast
  have first: "distinct (map set (map ((#) x) (combinations xs r)))"
  proof -
    have "inj_on (insert x) (set (map set (combinations xs r)))"
    proof (rule inj_onI)
      fix A B assume "A \<in> set (map set (combinations xs r))" "B \<in> set (map set (combinations xs r))"
        and eq: "insert x A = insert x B"
      then have "x \<notin> A" "x \<notin> B" using sub by auto
      with eq show "A = B" by (metis insert_ident)
    qed
    with "3.IH"(1)[OF dx] have "distinct (map (insert x) (map set (combinations xs r)))"
      by (simp only: distinct_map)
    then show ?thesis by (simp add: comp_def)
  qed
  have disj: "set (map set (map ((#) x) (combinations xs r)))
                \<inter> set (map set (combinations xs (Suc r))) = {}"
    using sub by auto
  show ?case using first "3.IH"(2)[OF dx] disj by simp
qed

lemma length_combinations: "length (combinations xs r) = length xs choose r"
  by (induction xs r rule: combinations.induct) simp_all

lemma combinations_sets:
  assumes "distinct xs"
  shows "set ` set (combinations xs r) = {A. A \<subseteq> set xs \<and> card A = r}"
proof (intro set_eqI iffI)
  fix A assume "A \<in> set ` set (combinations xs r)"
  then obtain c where c: "c \<in> set (combinations xs r)" "A = set c" by auto
  from combinations_member[OF assms c(1)] have "length c = r" "distinct c" "set c \<subseteq> set xs"
    by auto
  then show "A \<in> {A. A \<subseteq> set xs \<and> card A = r}" using c(2) by (simp add: distinct_card)
next
  fix A assume "A \<in> {A. A \<subseteq> set xs \<and> card A = r}"
  then show "A \<in> set ` set (combinations xs r)"
    using combinations_complete[of A xs r] by auto
qed

lemma evaluate_boards_Some:
  "evaluate_boards X hole_cards adversary_hole_cards (Some b) num_iterations =
     generate_exhaustive_boards X (evaluate_deck X hole_cards adversary_hole_cards (Some b))
       num_iterations (length b)"
  by (simp add: evaluate_boards_def evaluate_deck_def generate_boards_def select_mode_def
      board_length_def parsed_board_def Let_def)

lemma evaluate_boards_None:
  "evaluate_boards X hole_cards adversary_hole_cards None num_iterations =
     generate_random_boards X (evaluate_deck X hole_cards adversary_hole_cards None)
       num_iterations 0"
  by (simp add: evaluate_boards_def evaluate_deck_def generate_boards_def select_mode_def
      board_length_def Let_def)

lemma exhaustive_spec_stream:
  assumes "distinct deck" "l \<le> 5"
  shows "\<forall>c\<in>set (generate_exhaustive_boards_spec deck n l).
           length c = 5 - l \<and> distinct c \<and> set c \<subseteq> set deck"
    and "set ` set (generate_exhaustive_boards_spec deck n l)
           = {A. A \<subseteq> set deck \<and> card A = 5 - l}"
    and "distinct (map set (generate_exhaustive_boards_spec deck n l))"
    and "length (generate_exhaustive_boards_spec deck n l) = length deck choose (5 - l)"
    and "generate_exhaustive_boards_spec deck n' l = generate_exhaustive_boards_spec deck n l"
proof -
  have e: "generate_exhaustive_boards_spec deck n l = combinations deck (5 - l)" for n
    using assms(2) by (simp add: generate_exhaustive_boards_spec_def)
  show "\<forall>c\<in>set (generate_exhaustive_boards_spec deck n l).
           length c = 5 - l \<and> distinct c \<and> set c \<subseteq> set deck"
    unfolding e using combinations_member[OF assms(1)] by blast
  show "set ` set (generate_exhaustive_boards_spec deck n l)
           = {A. A \<subseteq> set deck \<and> card A = 5 - l}"
    unfolding e by (rule combinations_sets[OF assms(1)])
  show "distinct (map set (generate_exhaustive_boards_spec deck n l))"
    unfolding e by (rule combinations_distinct[OF assms(1)])
  show "length (generate_exhaustive_boards_spec deck n l) = length deck choose (5 - l)"
    unfolding e by (rule length_combinations)
  show "generate_exhaustive_boards_spec deck n' l = generate_exhaustive_boards_spec deck n l"
    unfolding e ..
qed

lemma random_spec_stream:
  assumes "draws_from_deck sample" "distinct deck" "5 \<le> length deck"
  shows "length (generate_random_boards_spec sample deck n 0) = nat n"
    and "\<forall>k<nat n. generate_random_boards_spec sample deck n 0 ! k = sample k deck 5
           \<and> length (generate_random_boards_spec sample deck n 0 ! k) = 5
           \<and> distinct (generate_random_boards_spec sample deck n 0 ! k)
           \<and> set (generate_random_boards_spec sample deck n 0 ! k) \<subseteq> set deck"
proof -
  show "length (generate_random_boards_spec sample deck n 0) = nat n"
    by (simp add: generate_random_boards_spec_def)
  have s: "length (sample k deck 5) = 5 \<and> distinct (sample k deck 5)
             \<and> set (sample k deck 5) \<subseteq> set deck" for k
    using assms unfolding draws_from_deck_def by blast
  show "\<forall>k<nat n. generate_random_boards_spec sample deck n 0 ! k = sample k deck 5
           \<and> length (generate_random_boards_spec sample deck n 0 ! k) = 5
           \<and> distinct (generate_random_boards_spec sample deck n 0 ! k)
           \<and> set (generate_random_boards_spec sample deck n 0 ! k) \<subseteq> set deck"
    using s by (simp add: generate_random_boards_spec_def)
qed

lemma first_cards_draws: "draws_from_deck first_cards"
  unfolding draws_from_deck_def first_cards_def
proof (intro allI impI)
  fix k :: nat and deck :: "'a list" and l :: nat
  assume a: "l \<le> length deck \<and> distinct deck"
  have "set (take l (rotate k deck)) \<subseteq> set (rotate k deck)" by (rule set_take_subset)
  then show "length (take l (rotate k deck)) = l \<and> distinct (take l (rotate k deck))
       \<and> set (take l (rotate k deck)) \<subseteq> set deck"
    using a by simp
qed




section \<open>The inputs are not written to\<close>

lemma make_board_store_frame:
  assumes "case given_board of None \<Rightarrow> True | Some g \<Rightarrow> g < length h"
    and "remaining_board < length h"
    and "make_board_store h given_board remaining_board = (h', board)"
  shows "take (length h) h' = h" and "length h \<le> length h'" and "board < length h'"
    and "h' ! board = make_board (map_option ((!) h) given_board) (h ! remaining_board)"
proof -
  have "take (length h) h' = h \<and> length h \<le> length h' \<and> board < length h'
      \<and> h' ! board = make_board (map_option ((!) h) given_board) (h ! remaining_board)"
  proof (cases given_board)
    case None
    with assms show ?thesis by (simp add: make_board_store_def make_board_def)
  next
    case (Some g)
    show ?thesis
    proof (cases "h ! g = []")
      case True
      with Some assms show ?thesis by (simp add: make_board_store_def make_board_def)
    next
      case False
      have h': "h' = h @ [h ! g @ h ! remaining_board]" and b: "board = length h"
        using assms(2,3) Some False
        by (auto simp: make_board_store_def alloc_def Let_def nth_append)
      show ?thesis using Some False by (simp add: h' b make_board_def)
    qed
  qed
  then show "take (length h) h' = h" and "length h \<le> length h'" and "board < length h'"
    and "h' ! board = make_board (map_option ((!) h) given_board) (h ! remaining_board)"
    by simp_all
qed

lemma take_prefix_nth: "take n h' = h \<Longrightarrow> a < length h \<Longrightarrow> h' ! a = h ! a"
  by (metis length_take min_less_iff_conj nth_take)

lemma run_trials_store_frame:
  assumes "\<forall>a\<in>set hole_cards. a < length h0"
    and "case given_board of None \<Rightarrow> True | Some g \<Rightarrow> g < length h0"
    and "take (length h0) h = h0"
  shows "take (length h0) (fst (run_trials_store body hole_cards given_board (h, st) jobs)) = h0
     \<and> snd (run_trials_store body hole_cards given_board (h, st) jobs) =
         run_trials (\<lambda>st (j, completion).
             body st j (map ((!) h0) hole_cards)
               (make_board (map_option ((!) h0) given_board) completion)) st jobs"
  using assms(3)
proof (induction jobs arbitrary: h st)
  case Nil
  then show ?case by simp
next
  case (Cons job jobs)
  obtain j completion where job: "job = (j, completion)" by (cases job)
  let ?h1 = "h @ [completion]"
  have len: "length h0 \<le> length h" using Cons.prems by (metis length_take min.cobounded1)
  obtain h2 board where mb: "make_board_store ?h1 given_board (length h) = (h2, board)"
    by (cases "make_board_store ?h1 given_board (length h)")
  have g1: "case given_board of None \<Rightarrow> True | Some g \<Rightarrow> g < length ?h1"
    using assms(2) len by (auto split: option.splits)
  have r1: "length h < length ?h1" by simp
  note fr = make_board_store_frame[OF g1 r1 mb]
  have pre1: "take (length h0) ?h1 = h0" using Cons.prems len by simp
  have tt: "take (length h0) (take (length ?h1) h2) = take (min (length h0) (length ?h1)) h2"
    by (rule take_take)
  have mn: "min (length h0) (length ?h1) = length h0" using len by simp
  have "take (length h0) h2 = take (length h0) ?h1" using tt mn fr(1) by metis
  then have pre2: "take (length h0) h2 = h0" using pre1 by (simp only:)
  have gv: "map_option ((!) ?h1) given_board = map_option ((!) h0) given_board"
    using assms(2) take_prefix_nth[OF pre1] by (cases given_board) simp_all
  have bv: "h2 ! board = make_board (map_option ((!) h0) given_board) completion"
    using fr(4) gv by simp
  have hv: "map ((!) h2) hole_cards = map ((!) h0) hole_cards"
    using assms(1) take_prefix_nth[OF pre2] by simp
  have step: "run_trials_store body hole_cards given_board (h, st) (job # jobs) =
      (case body st j (map ((!) h0) hole_cards)
              (make_board (map_option ((!) h0) given_board) completion) of
         Inl e \<Rightarrow> (h2, Inl e)
       | Inr st' \<Rightarrow> run_trials_store body hole_cards given_board (h2, st') jobs)"
    by (simp add: job alloc_def mb hv bv)
  show ?case
  proof (cases "body st j (map ((!) h0) hole_cards)
                  (make_board (map_option ((!) h0) given_board) completion)")
    case (Inl e)
    then show ?thesis unfolding step using pre2 by (simp add: job)
  next
    case (Inr st')
    with Cons.IH[OF pre2, of st'] show ?thesis unfolding step by (simp add: job)
  qed
qed

lemma run_trials_map_Pair:
  "run_trials (\<lambda>st (j, c). f st c) st (map (Pair u) boards) = run_trials f st boards"
  by (induction boards arbitrary: st) (auto split: sum.splits)

text \<open>
  C10. Neither reducer writes to an object that existed before the run: after any
  stream, and also when a trial raises, every object the store held at the start (the
  given board, the hole cards, the deck among them) has its contents unchanged, because
  \<^verbatim>\<open>extend\<close> writes to the copy \<^verbatim>\<open>given_board[:]\<close> made for the trial. The tallies are
  those of the reducers on the values.
\<close>

theorem inputs_unchanged_by_trials:
  assumes "\<forall>a\<in>set hole_cards. a < length h"
    and "case given_board of None \<Rightarrow> True | Some g \<Rightarrow> g < length h"
  shows "take (length h) (fst (u_evaluate_store X hole_cards given_board h boards)) = h
     \<and> snd (u_evaluate_store X hole_cards given_board h boards)
         = u_evaluate_tally X (map ((!) h) hole_cards) (map_option ((!) h) given_board) boards
     \<and> take (length h) (fst (pool_map_store X hole_cards given_board worker_of h st boards)) = h
     \<and> snd (pool_map_store X hole_cards given_board worker_of h st boards)
         = pool_map X (map_option ((!) h) given_board) (map ((!) h) hole_cards) worker_of st boards"
proof -
  have pre: "take (length h) h = h" by simp
  note seq = run_trials_store_frame[OF assms pre,
      of "\<lambda>st (j :: unit) hcs board. tabulate X hcs st board" _ "map (Pair ()) boards"]
  note par = run_trials_store_frame[OF assms pre,
      of "\<lambda>st k hcs board. shard_tabulate X hcs (worker_name (worker_of k)) st board"
         st "enumerate 0 boards"]
  have s: "snd (u_evaluate_store X hole_cards given_board h boards)
         = u_evaluate_tally X (map ((!) h) hole_cards) (map_option ((!) h) given_board) boards"
    unfolding u_evaluate_store_def u_evaluate_tally_def Let_def
    using seq by (simp add: run_trials_map_Pair trial_def[abs_def])
  have p: "snd (pool_map_store X hole_cards given_board worker_of h st boards)
         = pool_map X (map_option ((!) h) given_board) (map ((!) h) hole_cards) worker_of st boards"
    unfolding pool_map_store_def pool_map_def using par by (simp add: u_simulation_def[abs_def])
  show ?thesis
    using s p seq par unfolding u_evaluate_store_def pool_map_store_def Let_def by simp
qed


theorem inputs_unchanged_by_trials_witness:
  "take 3 (fst (u_evaluate_store example_holdem [0, 1] (Some 2)
                  [[''As'', ''Ad''], [''Kd'', ''Kc''], [''2c'', ''3c'', ''4c'']]
                  [[''5c'', ''7d''], [''5h'', ''7h'']]))
     = [[''As'', ''Ad''], [''Kd'', ''Kc''], [''2c'', ''3c'', ''4c'']]
   \<and> fst (u_evaluate_store example_holdem [0, 1] (Some 2)
                  [[''As'', ''Ad''], [''Kd'', ''Kc''], [''2c'', ''3c'', ''4c'']]
                  [[''5c'', ''7d''], [''5h'', ''7h'']])
     = [[''As'', ''Ad''], [''Kd'', ''Kc''], [''2c'', ''3c'', ''4c''],
        [''5c'', ''7d''], [''2c'', ''3c'', ''4c'', ''5c'', ''7d''],
        [''5h'', ''7h''], [''2c'', ''3c'', ''4c'', ''5h'', ''7h'']]
   \<and> take 3 (fst (pool_map_store example_holdem [0, 1] (Some 2) (\<lambda>k. k + 1)
                  [[''As'', ''Ad''], [''Kd'', ''Kc''], [''2c'', ''3c'', ''4c'']]
                  (replicate 6 0, replicate 40 0)
                  [[''5c'', ''7d''], [''5h'', ''7h'']]))
     = [[''As'', ''Ad''], [''Kd'', ''Kc''], [''2c'', ''3c'', ''4c'']]"
proof -
  let ?h = "[[''As'', ''Ad''], [''Kd'', ''Kc''], [''2c'', ''3c'', ''4c'']]"
  have a: "\<forall>a\<in>set [0, 1 :: nat]. a < length ?h" by simp
  have b: "case Some (2 :: nat) of None \<Rightarrow> True | Some g \<Rightarrow> g < length ?h" by simp
  have c: "fst (u_evaluate_store example_holdem [0, 1] (Some 2) ?h
                  [[''5c'', ''7d''], [''5h'', ''7h'']])
     = [[''As'', ''Ad''], [''Kd'', ''Kc''], [''2c'', ''3c'', ''4c''],
        [''5c'', ''7d''], [''2c'', ''3c'', ''4c'', ''5c'', ''7d''],
        [''5h'', ''7h''], [''2c'', ''3c'', ''4c'', ''5h'', ''7h'']]" by code_simp
  have l: "length ?h = 3" by simp
  from inputs_unchanged_by_trials[OF a b, of example_holdem "[[''5c'', ''7d''], [''5h'', ''7h'']]"
      "\<lambda>k. k + 1" "(replicate 6 0, replicate 40 0)"] c
  show ?thesis unfolding l by blast
qed

section \<open>What does hold of the parallel reducer\<close>

text \<open>
  The combined tally of the parallel reducer is the tally of the sequential reducer on
  the same stream, whatever the schedule: both reducers complete, and the two reduction
  loops rebuild the sequential win/tie counters and histograms from the shards. The
  boards are taken by workers 1..W with exclusive shards, the oracle keeps to its
  interface, and the stream has fewer than \<open>2^31\<close> boards (the shared counters are C
  ints).
\<close>

theorem parallel_combined_tally_is_sequential:
  assumes "\<forall>i<length boards. 1 \<le> worker_of i \<and> worker_of i \<le> W"
    and "outcomes_in_range X hole_cards given_board boards"
    and "length boards < 2 ^ 31"
    and "exclusive_shards worker_of (length boards)"
  shows "\<exists>winner_list result_histograms seq_winner_list seq_histograms.
      u_parallel_tally X W worker_of hole_cards given_board boards
        = Inr (winner_list, result_histograms)
      \<and> u_evaluate_tally X hole_cards given_board boards = Inr (seq_winner_list, seq_histograms)
      \<and> combine_winner_list (length hole_cards) winner_list = seq_winner_list
      \<and> combine_histograms (length hole_cards) result_histograms = Inr seq_histograms"
proof -
  from parallel_next_to_sequential[OF assms] obtain pst sst where
    t: "u_parallel_tally X W worker_of hole_cards given_board boards = Inr pst"
       "u_evaluate_tally X hole_cards given_board boards = Inr sst"
    and s: "sharded W (length hole_cards) (length boards) pst sst" by blast
  obtain wl rh where pst: "pst = (wl, rh)" by (cases pst)
  obtain swl shs where sst: "sst = (swl, shs)" by (cases sst)
  from sharded_combined[OF s[unfolded pst sst]] t show ?thesis unfolding pst sst by blast
qed

theorem parallel_combined_tally_is_sequential_witness:
  "outcomes_in_range example_holdem [[''As'', ''Ad''], [''Kd'', ''Kc'']]
     (Some [''2c'', ''3c'', ''4c'', ''5c''])
     (generate_exhaustive_boards_spec [''7c'', ''8d'', ''9h''] 5 4)
   \<and> (\<exists>winner_list result_histograms seq_winner_list seq_histograms.
        u_parallel_tally example_holdem 2 (\<lambda>k. k mod 2 + 1) [[''As'', ''Ad''], [''Kd'', ''Kc'']]
          (Some [''2c'', ''3c'', ''4c'', ''5c''])
          (generate_exhaustive_boards_spec [''7c'', ''8d'', ''9h''] 5 4)
          = Inr (winner_list, result_histograms)
        \<and> u_evaluate_tally example_holdem [[''As'', ''Ad''], [''Kd'', ''Kc'']]
            (Some [''2c'', ''3c'', ''4c'', ''5c''])
            (generate_exhaustive_boards_spec [''7c'', ''8d'', ''9h''] 5 4)
            = Inr (seq_winner_list, seq_histograms)
        \<and> combine_winner_list 2 winner_list = seq_winner_list
        \<and> combine_histograms 2 result_histograms = Inr seq_histograms)"
proof -
  let ?bs = "generate_exhaustive_boards_spec [''7c'', ''8d'', ''9h''] 5 4"
  have bs: "?bs = [[''7c''], [''8d''], [''9h'']]" by code_simp
  have w: "\<forall>i<length ?bs. 1 \<le> (\<lambda>k. k mod 2 + 1) i \<and> (\<lambda>k. k mod 2 + 1) i \<le> (2 :: nat)"
  proof (intro allI impI)
    fix i :: nat
    have "i mod 2 < 2" by simp
    then show "1 \<le> (\<lambda>k. k mod 2 + 1) i \<and> (\<lambda>k. k mod 2 + 1) i \<le> (2 :: nat)" by simp
  qed
  have r: "outcomes_in_range example_holdem [[''As'', ''Ad''], [''Kd'', ''Kc'']]
     (Some [''2c'', ''3c'', ''4c'', ''5c'']) ?bs" by code_simp
  have l: "length ?bs < 2 ^ 31" unfolding bs by simp
  have n: "length [[''As'', ''Ad''], [''Kd'', ''Kc'']] = 2" by simp
  have x: "exclusive_shards (\<lambda>k. k mod 2 + 1) (length ?bs)"
    unfolding exclusive_shards_def
  proof (intro allI impI)
    fix i j :: nat
    assume "(i mod 2 + 1) mod 10 = (j mod 2 + 1) mod 10"
    moreover have "i mod 2 + 1 < 10" "j mod 2 + 1 < 10" by simp_all
    ultimately show "i mod 2 + 1 = j mod 2 + 1" by simp
  qed
  from parallel_combined_tally_is_sequential[OF w r l x, unfolded n] r show ?thesis by blast
qed

text \<open>
  With at most nine workers the shard index of worker \<open>w\<close> is \<open>w - 1\<close>, and both counter
  writes of a trial land inside the slice of that shard: positions
  \<open>(w - 1) * (n + 1) .. w * (n + 1) - 1\<close> of \<open>winner_list\<close> and
  \<open>(w - 1) * n * 10 .. w * n * 10 - 1\<close> of \<open>result_histograms\<close>. The slices of two
  workers do not meet.
\<close>

theorem single_digit_workers_own_their_shard:
  assumes "1 \<le> w" "w \<le> W" "W \<le> 9"
    and "0 \<le> winner_index" "winner_index \<le> int n" "index < n" "0 \<le> category" "category \<le> 9"
  shows "proc_id_of (worker_name w) = Inr (int w - 1)
     \<and> (\<exists>k. py_index (W * (n + 1)) (winner_slot (int w - 1) (int n) winner_index) = Some k
            \<and> (w - 1) * (n + 1) \<le> k \<and> k < w * (n + 1))
     \<and> (\<exists>k. py_index (W * n * 10) (histogram_slot (int w - 1) (int n) (int index) category)
              = Some k
            \<and> (w - 1) * n * 10 \<le> k \<and> k < w * n * 10)"
proof -
  have m: "w mod 10 = w" using assms(2,3) by simp
  obtain v where w': "w = Suc v" using assms(1) by (cases w) simp_all
  have P: "- int W \<le> int w - 1" "int w - 1 < int W" using assms(1,2) by simp_all
  have "int (shard_of W (int w - 1)) = int w - 1" using shard_of_proc(2)[OF P] assms(1) by simp
  then have Q: "shard_of W (int w - 1) = w - 1" using assms(1) by linarith
  have c: "nat category < 10" "nat winner_index < n + 1" using assms(4,5,7,8) by simp_all
  have a: "proc_id_of (worker_name w) = Inr (int w - 1)"
    by (simp add: proc_id_of_worker_name m)
  have b: "py_index (W * (n + 1)) (winner_slot (int w - 1) (int n) winner_index)
             = Some ((w - 1) * (n + 1) + nat winner_index)"
    using resolve_winner_slot[OF P assms(4,5)] Q by simp
  have "(w - 1) * (n + 1) + nat winner_index < (w - 1) * (n + 1) + (n + 1)" using c(2) by simp
  also have "\<dots> = w * (n + 1)" using w' by simp
  finally have b2: "(w - 1) * (n + 1) + nat winner_index < w * (n + 1)" .
  have d: "py_index (W * n * 10) (histogram_slot (int w - 1) (int n) (int index) category)
             = Some (10 * ((w - 1) * n + index) + nat category)"
    using resolve_histogram_slot[OF P assms(6,7,8)] Q by simp
  have d1: "(w - 1) * n * 10 \<le> 10 * ((w - 1) * n + index) + nat category" by simp
  have "10 * ((w - 1) * n + index) + nat category < 10 * ((w - 1) * n + index) + 10"
    using c(1) by simp
  also have "\<dots> \<le> 10 * ((w - 1) * n + n)" using assms(6) by simp
  also have "\<dots> = w * n * 10" using w' by simp
  finally have d2: "10 * ((w - 1) * n + index) + nat category < w * n * 10" .
  show ?thesis using a b b2 d d1 d2 by simp
qed

theorem single_digit_workers_own_their_shard_witness:
  "proc_id_of (worker_name 3) = Inr 2
   \<and> py_index (4 * (2 + 1)) (winner_slot 2 2 1) = Some 7
   \<and> py_index (4 * 2 * 10) (histogram_slot 2 2 1 8) = Some 58"
proof -
  have k: "py_index (4 * (2 + 1)) (winner_slot 2 2 1) = Some 7"
    "py_index (4 * 2 * 10) (histogram_slot 2 2 1 8) = Some 58" by code_simp+
  from single_digit_workers_own_their_shard[of 3 4 1 2 1 8] k show ?thesis by simp
qed

text \<open>
  On the sequential path the pair returned is each player's win count over the number
  of trials of the stream.
\<close>

theorem sequential_probability_is_wins_over_trials:
  assumes "evaluate_boards X hole_cards adversary_hole_cards given_board num_iterations \<noteq> []"
    and "outcomes_in_range X (parsed_hole_cards X hole_cards adversary_hole_cards)
           (parsed_board X given_board)
           (evaluate_boards X hole_cards adversary_hole_cards given_board num_iterations)"
  shows "\<exists>winner_list result_histograms.
      u_evaluate_tally X (parsed_hole_cards X hole_cards adversary_hole_cards)
         (parsed_board X given_board)
         (evaluate_boards X hole_cards adversary_hole_cards given_board num_iterations)
        = Inr (winner_list, result_histograms)
      \<and> sum_list winner_list
          = int (length (evaluate_boards X hole_cards adversary_hole_cards given_board
                           num_iterations))
      \<and> evaluate X num_processes worker_of hole_cards adversary_hole_cards given_board False
          num_iterations
          = Inr (of_int (winner_list ! 1) / of_int (sum_list winner_list),
                 of_int (winner_list ! 2) / of_int (sum_list winner_list))"
proof -
  let ?bs = "evaluate_boards X hole_cards adversary_hole_cards given_board num_iterations"
  from evaluate_sequential_result[OF assms(2), of num_processes worker_of] obtain wl hs where
    t: "u_evaluate_tally X (parsed_hole_cards X hole_cards adversary_hole_cards)
         (parsed_board X given_board) ?bs = Inr (wl, hs)"
    and l: "length wl = 3" and s: "sum_list wl = int (length ?bs)"
    and e: "evaluate X num_processes worker_of hole_cards adversary_hole_cards given_board False
       num_iterations = probabilities wl"
    by blast
  have "sum_list wl \<noteq> 0" using s assms(1) by simp
  then have "probabilities wl = Inr (of_int (wl ! 1) / of_int (sum_list wl),
                                      of_int (wl ! 2) / of_int (sum_list wl))"
    using l by (simp add: probabilities_Inr)
  with t s e show ?thesis by auto
qed

theorem sequential_probability_is_wins_over_trials_witness:
  "evaluate_boards example_holdem [''Ks'', ''Qd''] [''Kd'', ''Jc''] None 4 \<noteq> []
   \<and> evaluate example_holdem 1 (\<lambda>k. 1) [''Ks'', ''Qd''] [''Kd'', ''Jc''] None False 4 = Inr (0, 0)"
proof -
  let ?bs = "evaluate_boards example_holdem [''Ks'', ''Qd''] [''Kd'', ''Jc''] None 4"
  have a: "?bs \<noteq> []" by code_simp
  have b: "outcomes_in_range example_holdem
      (parsed_hole_cards example_holdem [''Ks'', ''Qd''] [''Kd'', ''Jc''])
      (parsed_board example_holdem None) ?bs" by code_simp
  have c: "u_evaluate_tally example_holdem
      (parsed_hole_cards example_holdem [''Ks'', ''Qd''] [''Kd'', ''Jc''])
      (parsed_board example_holdem None) ?bs
        = Inr ([4, 0, 0], [[4, 0, 0, 0, 0, 0, 0, 0, 0, 0], [4, 0, 0, 0, 0, 0, 0, 0, 0, 0]])"
    by code_simp
  from sequential_probability_is_wins_over_trials[OF a b, of 1 "\<lambda>k. 1"] a c
  show ?thesis by auto
qed

end
